theory Spec2Isabelle
  imports Main
begin

section \<open>Values, records and options of \<open>addon/mixins/copyable.js\<close>\<close>

text \<open>
  The mixin \<open>addon/mixins/copyable.js\<close> gives a record \<open>copy(deep, options)\<close>, which
  runs \<open>COPY_TASK_RUNNER\<close>, which runs \<open>COPY_TASK\<close>; the copy task performs the copy
  tasks of related records, all in one session \<open>_meta\<close>.

  What is taken for granted. The tasks are generators of ember-concurrency: a task that
  is performed runs at once up to its first \<open>yield\<close>. A task that its caller yields
  (the copy task of the runner, the task of a to-one relationship) is seen to its end
  before the caller goes on. The tasks that \<open>invoke\<close> performs for the members of a
  to-many relationship are all started, in the order of the collection, before
  \<open>all\<close> waits for any of them; they are then resumed in that order, each to its end
  (the later turns of the scheduler are not modelled).
  \<open>this.get\<close>, \<open>store.createRecord\<close> and \<open>setProperties\<close> do not throw; the
  transforms and \<open>Ember.Copyable\<close> values may, and \<open>store.unloadRecord\<close> does on a
  copy that is no store record. The relationship bookkeeping of the store (what
  \<open>addRecords\<close> and the setting of a relationship do to the members and to their
  inverses, on the copy and on the source) is not part of the mixin and is not modelled:
  the source records are read as they were when the session began, the properties of a
  copy are those that were set on it, and a link of members is recorded as the call that
  it is. Names are not names of \<open>Object.prototype\<close>. The drop policy of the runner
  (\<open>.drop()\<close>) belongs to the scheduler of ember-concurrency and is not modelled.
\<close>

text \<open>
  The mixin copies a graph of Ember Data records. A source record is identified by its
  guid (\<open>guidFor(this)\<close>), a created copy by the identity of the freshly allocated
  object. JavaScript values are a datatype; a JavaScript object used as a dictionary
  (\<open>overwrite\<close>, \<open>dAttrs\<close>, \<open>rAttrs\<close>, \<open>attrs\<close>) is a map from names to
  values in which an own key bound to \<open>undefined\<close> is \<open>Some VUndefined\<close> and a
  missing key is \<open>None\<close>.
\<close>

type_synonym guid = nat
type_synonym cid = nat
type_synonym name = string

datatype val =
    VUndefined
  | VNull
  | VBool bool
  | VNum int
  | VStr string
  | VObject nat
  | VRecord guid
  | VClone cid
  | VArray "val list"

datatype error =
    TypeError
  | Thrown val
  | Error error

datatype kind = belongsTo | hasMany

text \<open>Reading a key of a JavaScript object: a missing key reads as \<open>undefined\<close>.\<close>

definition js_get :: "(name \<rightharpoonup> val) \<Rightarrow> name \<Rightarrow> val" where
  "js_get obj k = (case obj k of None \<Rightarrow> VUndefined | Some v \<Rightarrow> v)"

text \<open>JavaScript truthiness, as used by \<open>value && ...\<close> and \<open>firstObject && ...\<close>.\<close>

fun truthy :: "val \<Rightarrow> bool" where
  "truthy VUndefined = False"
| "truthy VNull = False"
| "truthy (VBool b) = b"
| "truthy (VNum n) = (n \<noteq> 0)"
| "truthy (VStr s) = (s \<noteq> [])"
| "truthy (VObject _) = True"
| "truthy (VRecord _) = True"
| "truthy (VClone _) = True"
| "truthy (VArray _) = True"

text \<open>
  Modelled from the spec: \<open>utils/is-undefined\<close> is imported by the mixin and is not part
  of the sources; the spec reads \<open>!isUndefined(overwrite[name])\<close> as
  ``\<open>overwrite[name]\<close> is defined''.
\<close>

definition isUndefined :: "val \<Rightarrow> bool" where
  "isUndefined v = (v = VUndefined)"

text \<open>\<open>Ember.isEmpty\<close> on the declared type of an attribute (a string or nothing).\<close>

definition isEmpty :: "string option \<Rightarrow> bool" where
  "isEmpty t = (case t of None \<Rightarrow> True | Some s \<Rightarrow> s = [])"

definition PRIMITIVE_TYPES :: "string list" where
  "PRIMITIVE_TYPES = [''string'', ''number'', ''boolean'']"

subsection \<open>Options\<close>

text \<open>
  An options object as the caller (or \<open>copyableOptions\<close>, or an entry of
  \<open>relationships\<close>) writes it: every key may be absent. An entry of
  \<open>relationships\<close> is again such an object, read for its \<open>deep\<close> key and passed to the
  copy of the related record.
\<close>

datatype opts = Opts
  (ignoreAttributes_of: "name list option")
  (otherAttributes_of: "name list option")
  (copyByReference_of: "name list option")
  (overwrite_of: "(name \<rightharpoonup> val) option")
  (relationships_of: "(name \<times> opts) list option")
  (createAsModel_of: "bool option")
  (objectDefinition_of: "(name \<rightharpoonup> val) option option")
  (deep_of: "bool option")

text \<open>
  The options after \<open>assign({}, DEFAULT_OPTIONS, copyableOptions, _options)\<close>: every key
  of \<open>DEFAULT_OPTIONS\<close> has a value. An \<open>objectDefinition\<close> is given by the properties
  that \<open>objectDefinition.create({})\<close> starts with.
\<close>

record options =
  ignoreAttributes :: "name list"
  otherAttributes :: "name list"
  copyByReference :: "name list"
  overwrite :: "name \<rightharpoonup> val"
  relationships :: "(name \<times> opts) list"
  createAsModel :: bool
  objectDefinition :: "(name \<rightharpoonup> val) option"

definition DEFAULT_OPTIONS :: options where
  "DEFAULT_OPTIONS =
     \<lparr> ignoreAttributes = [], otherAttributes = [], copyByReference = [],
       overwrite = Map.empty, relationships = [], createAsModel = True,
       objectDefinition = None \<rparr>"

text \<open>One source of \<open>assign\<close>: the keys present win, \<open>null\<close>/\<open>undefined\<close> is skipped.\<close>

definition assign :: "options \<Rightarrow> opts option \<Rightarrow> options" where
  "assign target source =
     (case source of
        None \<Rightarrow> target
      | Some s \<Rightarrow>
          \<lparr> ignoreAttributes = (case ignoreAttributes_of s of None \<Rightarrow> ignoreAttributes target | Some x \<Rightarrow> x),
            otherAttributes = (case otherAttributes_of s of None \<Rightarrow> otherAttributes target | Some x \<Rightarrow> x),
            copyByReference = (case copyByReference_of s of None \<Rightarrow> copyByReference target | Some x \<Rightarrow> x),
            overwrite = (case overwrite_of s of None \<Rightarrow> overwrite target | Some x \<Rightarrow> x),
            relationships = (case relationships_of s of None \<Rightarrow> relationships target | Some x \<Rightarrow> x),
            createAsModel = (case createAsModel_of s of None \<Rightarrow> createAsModel target | Some x \<Rightarrow> x),
            objectDefinition = (case objectDefinition_of s of None \<Rightarrow> objectDefinition target | Some x \<Rightarrow> x) \<rparr>)"

subsection \<open>Source records and their environment\<close>

text \<open>
  A record of the source graph: its model name, whether its class has the mixin
  (\<open>IS_COPYABLE\<close>), its \<open>copyableOptions\<close>, the attributes \<open>eachAttribute\<close> enumerates
  (name, declared type, attribute options), the relationships \<open>eachRelationship\<close>
  enumerates (name, kind), and the values \<open>this.get(name)\<close> reads.
\<close>

record model_record =
  modelName :: string
  IS_COPYABLE :: bool
  copyableOptions :: "opts option"
  attributes :: "(name \<times> string option \<times> val) list"
  relationshipsByName :: "(name \<times> kind) list"
  props :: "name \<rightharpoonup> val"

record transform =
  serialize :: "val \<Rightarrow> val \<Rightarrow> error + val"
  deserialize :: "val \<Rightarrow> val \<Rightarrow> error + val"

text \<open>
  The collaborators the mixin calls and that are not part of its source: the records of
  the graph by guid, \<open>Ember.Copyable\<close> (detection and a value's own \<open>copy(deep)\<close>),
  and whether the private relationship API (\<open>hasManyRelationship\<close>,
  \<open>belongsToRelationship\<close>, Ember Data 2.5+) is there.

  Modelled from the spec: \<open>utils/get-transform\<close> is imported by the mixin and is not part
  of the sources; the spec gives \<open>getTransform(record, type, session)\<close> a transform with
  \<open>serialize\<close> and \<open>deserialize\<close>, resolved once per type and session.
\<close>

record env =
  records :: "(guid \<times> model_record) list"
  Copyable_detect :: "val \<Rightarrow> bool"
  value_copy :: "val \<Rightarrow> bool \<Rightarrow> error + val"
  getTransform :: "string \<Rightarrow> error + transform"
  private_api :: bool

subsection \<open>The store and the copy session\<close>

text \<open>
  A created copy: a store record of some model (\<open>store.createRecord(modelName)\<close>) or a
  plain object (\<open>objectDefinition.create({})\<close>, \<open>{}\<close>), with its properties. The state
  is the created objects by identity, the copies the store has loaded, the next free
  identity, \<open>_meta.copies\<close> in insertion order (the order of \<open>keys\<close>), and the calls
  of \<open>addRecords\<close> made so far: the copy, the name of its relationship, and the
  members handed over, those of the source's relationship.
\<close>

record clone =
  clone_model :: "string option"
  clone_props :: "name \<rightharpoonup> val"

record state =
  objects :: "cid \<Rightarrow> clone"
  loaded :: "cid set"
  next_id :: cid
  copies :: "(guid \<times> cid) list"
  links :: "(cid \<times> name \<times> val) list"

definition createRecord :: "string \<Rightarrow> state \<Rightarrow> cid \<times> state" where
  "createRecord mn st =
     (next_id st,
      st\<lparr> objects := (objects st)(next_id st := \<lparr> clone_model = Some mn, clone_props = Map.empty \<rparr>),
          loaded := insert (next_id st) (loaded st),
          next_id := Suc (next_id st) \<rparr>)"

definition create_object :: "(name \<rightharpoonup> val) \<Rightarrow> state \<Rightarrow> cid \<times> state" where
  "create_object init st =
     (next_id st,
      st\<lparr> objects := (objects st)(next_id st := \<lparr> clone_model = None, clone_props = init \<rparr>),
          next_id := Suc (next_id st) \<rparr>)"

text \<open>
  \<open>store.unloadRecord(record)\<close> calls \<open>record.unloadRecord()\<close>: a copy that is a
  plain object has no such method, and the call throws.
\<close>

definition unloadRecord :: "cid \<Rightarrow> state \<Rightarrow> error + state" where
  "unloadRecord c st =
     (if clone_model (objects st c) = None then Inl TypeError
      else Inr (st\<lparr> loaded := loaded st - {c} \<rparr>))"

definition getProperties :: "model_record \<Rightarrow> name list \<Rightarrow> (name \<rightharpoonup> val)" where
  "getProperties this names = (\<lambda>k. if k \<in> set names then Some (js_get (props this) k) else None)"

definition setProperties :: "cid \<Rightarrow> (name \<rightharpoonup> val) \<Rightarrow> state \<Rightarrow> state" where
  "setProperties model attrs st =
     st\<lparr> objects := (objects st)(model := (objects st model)\<lparr> clone_props := clone_props (objects st model) ++ attrs \<rparr>) \<rparr>"

section \<open>The copy task\<close>

subsection \<open>Attributes (the \<open>eachAttribute\<close> callback)\<close>

text \<open>
  The value of a non-primitive attribute that is not copied by reference: the value's
  own \<open>copy(deep)\<close> when it is an \<open>Ember.Copyable\<close>, else the transform of its type,
  serialize then deserialize. Whatever these throw leaves the callback.
\<close>

definition copy_value :: "env \<Rightarrow> model_record \<Rightarrow> bool \<Rightarrow> name \<Rightarrow> string option \<Rightarrow> val \<Rightarrow> error + val" where
  "copy_value env this deep name type attributeOptions =
     (let value = js_get (props this) name in
      if Copyable_detect env value then value_copy env value deep
      else
        (case type of
           None \<Rightarrow> Inl TypeError
         | Some t \<Rightarrow>
             (case getTransform env t of
                Inl e \<Rightarrow> Inl e
              | Inr tr \<Rightarrow>
                  (case serialize tr value attributeOptions of
                     Inl e \<Rightarrow> Inl e
                   | Inr wire \<Rightarrow> deserialize tr wire attributeOptions))))"

definition is_primitive :: "string option \<Rightarrow> bool" where
  "is_primitive type = (case type of None \<Rightarrow> False | Some t \<Rightarrow> t \<in> set PRIMITIVE_TYPES)"

fun copy_attribute ::
  "env \<Rightarrow> model_record \<Rightarrow> bool \<Rightarrow> options \<Rightarrow> name \<times> string option \<times> val \<Rightarrow>
   (name \<rightharpoonup> val) \<Rightarrow> error + (name \<rightharpoonup> val)" where
  "copy_attribute env this deep options (name, type, attributeOptions) dAttrs =
     (if name \<in> set (ignoreAttributes options) then Inr dAttrs
      else if \<not> isUndefined (js_get (overwrite options) name) then
        Inr (dAttrs(name \<mapsto> js_get (overwrite options) name))
      else if \<not> isEmpty type \<and> name \<notin> set (copyByReference options) \<and> \<not> is_primitive type then
        (case copy_value env this deep name type attributeOptions of
           Inl e \<Rightarrow> Inl e
         | Inr value \<Rightarrow> Inr (dAttrs(name \<mapsto> value)))
      else Inr (dAttrs(name \<mapsto> js_get (props this) name)))"

fun eachAttribute ::
  "env \<Rightarrow> model_record \<Rightarrow> bool \<Rightarrow> options \<Rightarrow> (name \<times> string option \<times> val) list \<Rightarrow>
   (name \<rightharpoonup> val) \<Rightarrow> error + (name \<rightharpoonup> val)" where
  "eachAttribute env this deep options [] dAttrs = Inr dAttrs"
| "eachAttribute env this deep options (a # as) dAttrs =
     (case copy_attribute env this deep options a dAttrs of
        Inl e \<Rightarrow> Inl e
      | Inr dAttrs' \<Rightarrow> eachAttribute env this deep options as dAttrs')"

subsection \<open>A task up to its first \<open>yield\<close>\<close>

text \<open>\<open>let options = assign({}, DEFAULT_OPTIONS, this.get('copyableOptions'), _options)\<close>.\<close>

definition merged_options :: "model_record \<Rightarrow> opts option \<Rightarrow> options" where
  "merged_options this opts_arg = assign (assign DEFAULT_OPTIONS (copyableOptions this)) opts_arg"

text \<open>The target of the copy (\<open>let model = null; if (options.createAsModel) ...\<close>).\<close>

definition create_model :: "options \<Rightarrow> model_record \<Rightarrow> state \<Rightarrow> cid \<times> state" where
  "create_model options this st =
     (if createAsModel options then createRecord (modelName this) st
      else
        (case objectDefinition options of
           Some init \<Rightarrow> create_object init st
         | None \<Rightarrow> create_object Map.empty st))"

text \<open>\<open>copies[guid] = model\<close>, for a guid that \<open>copies\<close> does not have.\<close>

definition register_copy :: "guid \<Rightarrow> cid \<Rightarrow> state \<Rightarrow> state" where
  "register_copy g model st = st\<lparr> copies := copies st @ [(g, model)] \<rparr>"

text \<open>
  \<open>this.eachRelationship((name, meta) => { if (!ignoreAttributes.includes(name)) {
  relationships.push({ name, meta }); } })\<close>.
\<close>

definition eachRelationship :: "options \<Rightarrow> model_record \<Rightarrow> (name \<times> kind) list" where
  "eachRelationship options this =
     filter (\<lambda>(name, knd). name \<notin> set (ignoreAttributes options)) (relationshipsByName this)"

text \<open>
  The body of the \<open>try\<close> in reference-link mode: \<open>model[meta.kind](name)\<close> is not a
  function on a plain object, and the private relationship fields may be missing; both
  throw. Otherwise \<open>addRecords\<close> is called on the relationship of the copy with the
  members of the relationship of the source, and the call is recorded.
\<close>

definition link_members :: "env \<Rightarrow> model_record \<Rightarrow> cid \<Rightarrow> name \<Rightarrow> state \<Rightarrow> error + state" where
  "link_members env this model name st =
     (if clone_model (objects st model) = None \<or> \<not> private_api env then Inl TypeError
      else Inr (st\<lparr> links := links st @ [(model, name, js_get (props this) name)] \<rparr>))"

text \<open>
  The turns of the loop over \<open>relationships\<close> that run before the first \<open>yield\<close>:
  those of the relationships that are overwritten or in reference-link mode (the two
  \<open>continue\<close>s). The result is \<open>rAttrs\<close>, the relationships from the first one in
  deep-copy mode on (none when the loop has ended), and the state.
\<close>

fun until_yield ::
  "env \<Rightarrow> model_record \<Rightarrow> cid \<Rightarrow> bool \<Rightarrow> options \<Rightarrow> (name \<times> kind) list \<Rightarrow>
   (name \<rightharpoonup> val) \<Rightarrow> state \<Rightarrow> (name \<rightharpoonup> val) \<times> (name \<times> kind) list \<times> state" where
  "until_yield env this model deep options [] rAttrs st = (rAttrs, [], st)"
| "until_yield env this model deep options ((name, knd) # rest) rAttrs st =
     (if \<not> isUndefined (js_get (overwrite options) name) then
        until_yield env this model deep options rest
          (rAttrs(name \<mapsto> js_get (overwrite options) name)) st
      else if \<not> deep \<or> name \<in> set (copyByReference options) then
        (case link_members env this model name st of
           Inr st' \<Rightarrow> until_yield env this model deep options rest rAttrs st'
         | Inl e \<Rightarrow>
             until_yield env this model deep options rest
               (rAttrs(name \<mapsto> js_get (props this) name)) st)
      else (rAttrs, (name, knd) # rest, st))"

text \<open>
  A task that stands at \<open>let value = yield this.get(name)\<close>: its record, its copy,
  its \<open>deep\<close> and \<open>options\<close>, \<open>dAttrs\<close> and \<open>rAttrs\<close> so far, and the
  relationships that its loop has not done yet.
\<close>

record suspended =
  task_this :: model_record
  task_model :: cid
  task_deep :: bool
  task_options :: options
  task_dAttrs :: "name \<rightharpoonup> val"
  task_rAttrs :: "name \<rightharpoonup> val"
  task_relationships :: "(name \<times> kind) list"

text \<open>
  A task instance after \<open>perform\<close> has started it: it has returned a copy, it has
  thrown, or it stands at its first \<open>yield\<close>.
\<close>

datatype started = Returned cid | Threw error | Suspended suspended

text \<open>
  \<open>perform(deep, _options, _meta)\<close> on the copy task of the record with guid
  \<open>this\<close>, up to the first \<open>yield\<close>: the options, the check of \<open>copies[guid]\<close>,
  the target, its entry in \<open>copies\<close>, the attributes, and the turns of the loop over
  the relationships that do not yield. A task none of whose relationships is in deep-copy
  mode ends here, with the final \<open>assign\<close> and \<open>setProperties\<close>. The writes to
  \<open>_options.dAttrs\<close>, \<open>_options.rAttrs\<close> and \<open>_options.attrs\<close> are left out:
  the task never reads them. A guid that is no record of the graph has no task to
  perform.
\<close>

definition start_task :: "env \<Rightarrow> guid \<Rightarrow> bool \<Rightarrow> opts option \<Rightarrow> state \<Rightarrow> started \<times> state" where
  "start_task env this deep opts_arg meta =
     (case map_of (records env) this of
        None \<Rightarrow> (Threw TypeError, meta)
      | Some r \<Rightarrow>
          (let options = merged_options r opts_arg in
           case map_of (copies meta) this of
             Some c \<Rightarrow> (Returned c, meta)
           | None \<Rightarrow>
               (let (model, st1) = create_model options r meta;
                    st2 = register_copy this model st1
                in case eachAttribute env r deep options (attributes r) Map.empty of
                     Inl e \<Rightarrow> (Threw e, st2)
                   | Inr dAttrs \<Rightarrow>
                       (case until_yield env r model deep options (eachRelationship options r)
                               Map.empty st2 of
                          (rAttrs, [], st3) \<Rightarrow>
                            (let attrs = getProperties r (otherAttributes options) ++ dAttrs
                                           ++ rAttrs ++ overwrite options
                             in (Returned model, setProperties model attrs st3))
                        | (rAttrs, rel # rels, st3) \<Rightarrow>
                            (Suspended \<lparr> task_this = r, task_model = model, task_deep = deep,
                                         task_options = options, task_dAttrs = dAttrs,
                                         task_rAttrs = rAttrs, task_relationships = rel # rels \<rparr>,
                             st3)))))"

subsection \<open>Relationships\<close>

text \<open>
  \<open>value.get(IS_COPYABLE)\<close> on a truthy value: the guid of the record when the value is
  a record whose class has the mixin, nothing when it is another object, and a
  \<open>TypeError\<close> when the value has no \<open>get\<close> (a primitive, or a guid that is no record
  of the graph).
\<close>

fun get_IS_COPYABLE :: "env \<Rightarrow> val \<Rightarrow> error + guid option" where
  "get_IS_COPYABLE env (VRecord g) =
     (case map_of (records env) g of
        None \<Rightarrow> Inl TypeError
      | Some r \<Rightarrow> Inr (if IS_COPYABLE r then Some g else None))"
| "get_IS_COPYABLE env (VArray ms) = Inr None"
| "get_IS_COPYABLE env (VObject x) = Inr None"
| "get_IS_COPYABLE env (VClone c) = Inr None"
| "get_IS_COPYABLE env v = Inl TypeError"

text \<open>\<open>value.get('firstObject')\<close>: \<open>null\<close>, \<open>undefined\<close> and primitives have no \<open>get\<close>.\<close>

fun firstObject :: "val \<Rightarrow> error + val" where
  "firstObject (VArray []) = Inr VUndefined"
| "firstObject (VArray (m # ms)) = Inr m"
| "firstObject (VRecord g) = Inr VUndefined"
| "firstObject (VObject x) = Inr VUndefined"
| "firstObject (VClone c) = Inr VUndefined"
| "firstObject v = Inl TypeError"

fun members_of :: "val \<Rightarrow> val list" where
  "members_of (VArray ms) = ms"
| "members_of v = []"

text \<open>
  The member of a to-many collection that has the copy task (\<open>getEach(COPY_TASK)\<close>):
  a record with the mixin.
\<close>

definition task_of :: "env \<Rightarrow> val \<Rightarrow> guid option" where
  "task_of env m =
     (if truthy m then (case get_IS_COPYABLE env m of Inl e \<Rightarrow> None | Inr t \<Rightarrow> t) else None)"

text \<open>
  What a task asks of the copy tasks of other records: to perform one and wait for its
  end (\<open>yield value.get(COPY_TASK).perform(deepRel, relOptions, _meta)\<close>), or to wait
  for the end of one that was started before. \<open>None\<close> is a task that did not return.
\<close>

datatype request = Perform guid bool "opts option" | Resume suspended

type_synonym perform = "request \<Rightarrow> state \<Rightarrow> ((error + cid) \<times> state) option"

text \<open>
  \<open>value.getEach(COPY_TASK).invoke('perform', deepRel, relOptions, _meta)\<close>: the copy
  task of every member that has one is started, in the order of the collection, each in
  the state that the one before has left. The result has the task instance at the index
  of such a member and a hole at the index of any other.
\<close>

fun invoke ::
  "env \<Rightarrow> bool \<Rightarrow> opts option \<Rightarrow> val list \<Rightarrow> state \<Rightarrow> started option list \<times> state" where
  "invoke env deepRel relOptions [] st = ([], st)"
| "invoke env deepRel relOptions (m # ms) st =
     (case task_of env m of
        None \<Rightarrow>
          (case invoke env deepRel relOptions ms st of (ts, st') \<Rightarrow> (None # ts, st'))
      | Some g \<Rightarrow>
          (case start_task env g deepRel relOptions st of
             (t, st1) \<Rightarrow>
               (case invoke env deepRel relOptions ms st1 of (ts, st2) \<Rightarrow> (Some t # ts, st2))))"

text \<open>
  The array that \<open>invoke\<close> returns is filled by \<open>ret[idx] = ...\<close> for the members
  that have the method: it ends with the last index that was assigned, so that the holes
  after the last task instance are not part of it.
\<close>

fun array_of :: "'a option list \<Rightarrow> 'a option list" where
  "array_of [] = []"
| "array_of (x # xs) =
     (case array_of xs of
        [] \<Rightarrow> (case x of None \<Rightarrow> [] | Some y \<Rightarrow> [x])
      | y # ys \<Rightarrow> x # y # ys)"

text \<open>
  \<open>yield all(...)\<close>: the task instances are awaited in the order of the array; one that
  stands at its first \<open>yield\<close> is resumed and seen to its end, a hole gives
  \<open>undefined\<close>, and the first error ends the whole.
\<close>

fun all_tasks ::
  "perform \<Rightarrow> started option list \<Rightarrow> state \<Rightarrow> ((error + val list) \<times> state) option" where
  "all_tasks perform [] st = Some (Inr [], st)"
| "all_tasks perform (None # ts) st =
     (case all_tasks perform ts st of
        None \<Rightarrow> None
      | Some (Inl e, st') \<Rightarrow> Some (Inl e, st')
      | Some (Inr cs, st') \<Rightarrow> Some (Inr (VUndefined # cs), st'))"
| "all_tasks perform (Some (Returned c) # ts) st =
     (case all_tasks perform ts st of
        None \<Rightarrow> None
      | Some (Inl e, st') \<Rightarrow> Some (Inl e, st')
      | Some (Inr cs, st') \<Rightarrow> Some (Inr (VClone c # cs), st'))"
| "all_tasks perform (Some (Threw e) # ts) st = Some (Inl e, st)"
| "all_tasks perform (Some (Suspended t) # ts) st =
     (case perform (Resume t) st of
        None \<Rightarrow> None
      | Some (Inl e, st') \<Rightarrow> Some (Inl e, st')
      | Some (Inr c, st') \<Rightarrow>
          (case all_tasks perform ts st' of
             None \<Rightarrow> None
           | Some (Inl e, st'') \<Rightarrow> Some (Inl e, st'')
           | Some (Inr cs, st'') \<Rightarrow> Some (Inr (VClone c # cs), st'')))"

text \<open>\<open>all(value.getEach(COPY_TASK).invoke('perform', deepRel, relOptions, _meta))\<close>.\<close>

definition perform_all ::
  "env \<Rightarrow> perform \<Rightarrow> bool \<Rightarrow> opts option \<Rightarrow> val list \<Rightarrow> state \<Rightarrow>
   ((error + val list) \<times> state) option" where
  "perform_all env perform deepRel relOptions ms st =
     (case invoke env deepRel relOptions ms st of
        (ts, st1) \<Rightarrow> all_tasks perform (array_of ts) st1)"

definition deepRel_of :: "opts option \<Rightarrow> bool \<Rightarrow> bool" where
  "deepRel_of relOptions deep =
     (case relOptions of
        None \<Rightarrow> deep
      | Some ro \<Rightarrow> (case deep_of ro of None \<Rightarrow> deep | Some b \<Rightarrow> b))"

text \<open>
  One turn of the loop over \<open>relationships\<close> in deep-copy mode (after the two
  \<open>continue\<close>s): the new value of \<open>rAttrs[name]\<close>.
\<close>

definition deep_copy_relationship ::
  "env \<Rightarrow> perform \<Rightarrow> model_record \<Rightarrow> bool \<Rightarrow> options \<Rightarrow> name \<Rightarrow> kind \<Rightarrow> state \<Rightarrow>
   ((error + val) \<times> state) option" where
  "deep_copy_relationship env perform this deep options name knd st =
     (let value = js_get (props this) name;
          relOptions = map_of (relationships options) name;
          deepRel = deepRel_of relOptions deep
      in case knd of
           belongsTo \<Rightarrow>
             (if truthy value then
                (case get_IS_COPYABLE env value of
                   Inl e \<Rightarrow> Some (Inl e, st)
                 | Inr None \<Rightarrow> Some (Inr value, st)
                 | Inr (Some g) \<Rightarrow>
                     (case perform (Perform g deepRel relOptions) st of
                        None \<Rightarrow> None
                      | Some (Inl e, st') \<Rightarrow> Some (Inl e, st')
                      | Some (Inr c, st') \<Rightarrow> Some (Inr (VClone c), st')))
              else Some (Inr value, st))
         | hasMany \<Rightarrow>
             (case firstObject value of
                Inl e \<Rightarrow> Some (Inl e, st)
              | Inr first \<Rightarrow>
                  (if truthy first then
                     (case get_IS_COPYABLE env first of
                        Inl e \<Rightarrow> Some (Inl e, st)
                      | Inr None \<Rightarrow> Some (Inr value, st)
                      | Inr (Some g) \<Rightarrow>
                          (case perform_all env perform deepRel relOptions (members_of value) st of
                             None \<Rightarrow> None
                           | Some (Inl e, st') \<Rightarrow> Some (Inl e, st')
                           | Some (Inr cs, st') \<Rightarrow> Some (Inr (VArray cs), st')))
                   else Some (Inr value, st))))"

text \<open>The loop \<open>for (let i = 0; i < relationships.length; i++)\<close>.\<close>

fun copy_relationships ::
  "env \<Rightarrow> perform \<Rightarrow> model_record \<Rightarrow> cid \<Rightarrow> bool \<Rightarrow> options \<Rightarrow> (name \<times> kind) list \<Rightarrow>
   (name \<rightharpoonup> val) \<Rightarrow> state \<Rightarrow> ((error + (name \<rightharpoonup> val)) \<times> state) option" where
  "copy_relationships env perform this model deep options [] rAttrs st = Some (Inr rAttrs, st)"
| "copy_relationships env perform this model deep options ((name, knd) # rest) rAttrs st =
     (if \<not> isUndefined (js_get (overwrite options) name) then
        copy_relationships env perform this model deep options rest
          (rAttrs(name \<mapsto> js_get (overwrite options) name)) st
      else if \<not> deep \<or> name \<in> set (copyByReference options) then
        (case link_members env this model name st of
           Inr st' \<Rightarrow> copy_relationships env perform this model deep options rest rAttrs st'
         | Inl e \<Rightarrow>
             copy_relationships env perform this model deep options rest
               (rAttrs(name \<mapsto> js_get (props this) name)) st)
      else
        (case deep_copy_relationship env perform this deep options name knd st of
           None \<Rightarrow> None
         | Some (Inl e, st') \<Rightarrow> Some (Inl e, st')
         | Some (Inr v, st') \<Rightarrow>
             copy_relationships env perform this model deep options rest (rAttrs(name \<mapsto> v)) st'))"

subsection \<open>\<open>COPY_TASK\<close>\<close>

text \<open>
  A task from its first \<open>yield\<close> to its end: the rest of the loop over the
  relationships, the final \<open>assign\<close> and \<open>setProperties\<close>.
\<close>

definition resume_task :: "env \<Rightarrow> perform \<Rightarrow> suspended \<Rightarrow> state \<Rightarrow> ((error + cid) \<times> state) option" where
  "resume_task env perform t st =
     (case copy_relationships env perform (task_this t) (task_model t) (task_deep t)
             (task_options t) (task_relationships t) (task_rAttrs t) st of
        None \<Rightarrow> None
      | Some (Inl e, st3) \<Rightarrow> Some (Inl e, st3)
      | Some (Inr rAttrs, st3) \<Rightarrow>
          (let attrs = getProperties (task_this t) (otherAttributes (task_options t))
                         ++ task_dAttrs t ++ rAttrs ++ overwrite (task_options t)
           in Some (Inr (task_model t), setProperties (task_model t) attrs st3)))"

text \<open>
  The task instances of the copy task. The first argument bounds the depth of the nested
  tasks: \<open>None\<close> says that the bound was reached, that is, that the task did not
  return within it. A result carries the state at the return or at the throw.
\<close>

primrec task_instance :: "nat \<Rightarrow> env \<Rightarrow> request \<Rightarrow> state \<Rightarrow> ((error + cid) \<times> state) option" where
  "task_instance 0 env req meta = None"
| "task_instance (Suc n) env req meta =
     (case req of
        Perform this deep opts_arg \<Rightarrow>
          (case start_task env this deep opts_arg meta of
             (Returned c, st) \<Rightarrow> Some (Inr c, st)
           | (Threw e, st) \<Rightarrow> Some (Inl e, st)
           | (Suspended t, st) \<Rightarrow> resume_task env (task_instance n env) t st)
      | Resume t \<Rightarrow> resume_task env (task_instance n env) t meta)"

text \<open>
  The copy task of the record with guid \<open>this\<close>, performed and seen to its end:
  \<open>yield this.get(COPY_TASK).perform(deep, options, _meta)\<close>.
\<close>

definition COPY_TASK ::
  "nat \<Rightarrow> env \<Rightarrow> guid \<Rightarrow> bool \<Rightarrow> opts option \<Rightarrow> state \<Rightarrow> ((error + cid) \<times> state) option" where
  "COPY_TASK n env this deep opts_arg meta = task_instance n env (Perform this deep opts_arg) meta"

subsection \<open>\<open>COPY_TASK_RUNNER\<close>\<close>

text \<open>
  \<open>copiesKeys.forEach((key) => store.unloadRecord(_meta.copies[key]))\<close>: the first
  call that throws ends the \<open>forEach\<close>, with the copies after it not unloaded.
\<close>

fun unload_copies :: "(guid \<times> cid) list \<Rightarrow> state \<Rightarrow> error option \<times> state" where
  "unload_copies [] st = (None, st)"
| "unload_copies ((key, c) # rest) st =
     (case unloadRecord c st of
        Inl e \<Rightarrow> (Some e, st)
      | Inr st' \<Rightarrow> unload_copies rest st')"

text \<open>
  The runner behind \<open>copy(deep, options)\<close>: a fresh \<open>_meta\<close>, the copy task, and on a
  throw the \<open>catch\<close> (\<open>throw new Error(e)\<close>) and the \<open>finally\<close> that unloads the
  copies of \<open>_meta.copies\<close>; what the \<open>finally\<close> throws takes the place of the
  error of the \<open>catch\<close>.
\<close>

definition COPY_TASK_RUNNER ::
  "nat \<Rightarrow> env \<Rightarrow> guid \<Rightarrow> bool \<Rightarrow> opts option \<Rightarrow> state \<Rightarrow> ((error + cid) \<times> state) option" where
  "COPY_TASK_RUNNER n env this deep opts_arg store =
     (case COPY_TASK n env this deep opts_arg (store\<lparr> copies := [] \<rparr>) of
        None \<Rightarrow> None
      | Some (Inr model, st) \<Rightarrow> Some (Inr model, st)
      | Some (Inl e, st) \<Rightarrow>
          (case unload_copies (copies st) st of
             (None, st') \<Rightarrow> Some (Inl (Error e), st')
           | (Some e', st') \<Rightarrow> Some (Inl e', st')))"

section \<open>Relations between the states of a session\<close>

text \<open>
  What a task may do to the session it runs in. From \<open>st\<close> to \<open>st'\<close> the session
  \<open>grows\<close> when \<open>copies\<close> got entries at its end only, identities were only added, and
  whatever the store has loaded since is registered in \<open>copies\<close>. It \<open>keeps\<close> the
  objects when those of \<open>st\<close> are as they were, and keeps them but \<open>m\<close> when \<open>m\<close>
  may have got properties.
\<close>

definition grows :: "state \<Rightarrow> state \<Rightarrow> bool" where
  "grows st st' \<longleftrightarrow>
     (\<exists>ys. copies st' = copies st @ ys) \<and> next_id st \<le> next_id st' \<and>
     loaded st' \<subseteq> loaded st \<union> snd ` set (copies st')"

definition keeps :: "state \<Rightarrow> state \<Rightarrow> bool" where
  "keeps st st' \<longleftrightarrow> (\<forall>c<next_id st. objects st' c = objects st c)"

definition keeps_but :: "cid \<Rightarrow> state \<Rightarrow> state \<Rightarrow> bool" where
  "keeps_but m st st' \<longleftrightarrow>
     (\<forall>c<next_id st. c \<noteq> m \<longrightarrow> objects st' c = objects st c) \<and>
     clone_model (objects st' m) = clone_model (objects st m)"

text \<open>
  A \<open>perform\<close> is sound when every run of it that returns or throws has let the session
  grow; a task that was performed has kept the objects it found, and what it returns is
  the entry of its record; a task that was resumed has kept the objects but its own copy,
  which is what it returns.
\<close>

definition sound_perform :: "perform \<Rightarrow> bool" where
  "sound_perform p \<longleftrightarrow>
     (\<forall>g d ro st r st'. p (Perform g d ro) st = Some (r, st') \<longrightarrow>
        grows st st' \<and> keeps st st' \<and> (\<forall>c. r = Inr c \<longrightarrow> map_of (copies st') g = Some c)) \<and>
     (\<forall>t st r st'. p (Resume t) st = Some (r, st') \<longrightarrow> task_model t < next_id st \<longrightarrow>
        grows st st' \<and> keeps_but (task_model t) st st' \<and> (\<forall>c. r = Inr c \<longrightarrow> c = task_model t))"

text \<open>
  The task instance that \<open>invoke\<close> has started for the record \<open>g\<close>, seen in a later
  state: what it returned is the entry of \<open>g\<close>, and so is the copy of a task that
  stands at its first \<open>yield\<close>, a copy made since the identity \<open>b\<close> was free. And
  the value that \<open>all\<close> has for a task instance or a hole.
\<close>

definition instance_of :: "state \<Rightarrow> cid \<Rightarrow> guid \<Rightarrow> started \<Rightarrow> bool" where
  "instance_of st b g s =
     (case s of
        Returned c \<Rightarrow> map_of (copies st) g = Some c
      | Threw e \<Rightarrow> True
      | Suspended t \<Rightarrow>
          map_of (copies st) g = Some (task_model t) \<and> b \<le> task_model t \<and> task_model t < next_id st)"

definition member_instance :: "env \<Rightarrow> state \<Rightarrow> cid \<Rightarrow> val \<Rightarrow> started option \<Rightarrow> bool" where
  "member_instance env st b m s =
     (case task_of env m of
        None \<Rightarrow> s = None
      | Some g \<Rightarrow> (case s of None \<Rightarrow> False | Some x \<Rightarrow> instance_of st b g x))"

definition awaited :: "started option \<Rightarrow> val \<Rightarrow> bool" where
  "awaited s c =
     (case s of
        None \<Rightarrow> c = VUndefined
      | Some (Returned k) \<Rightarrow> c = VClone k
      | Some (Threw e) \<Rightarrow> False
      | Some (Suspended t) \<Rightarrow> c = VClone (task_model t))"

text \<open>
  The number of records of the graph that \<open>copies\<close> has no entry for, and a
  \<open>perform\<close> that returns or throws whenever fewer than \<open>n\<close> records are left, one
  less for a task that is resumed: its own record has its entry.
\<close>

definition unvisited :: "env \<Rightarrow> state \<Rightarrow> nat" where
  "unvisited env st = card (fst ` set (records env) - fst ` set (copies st))"

definition returns_below :: "env \<Rightarrow> nat \<Rightarrow> perform \<Rightarrow> bool" where
  "returns_below env n p \<longleftrightarrow>
     (\<forall>g d ro st. unvisited env st < n \<longrightarrow> p (Perform g d ro) st \<noteq> None) \<and>
     (\<forall>t st. Suc (unvisited env st) < n \<longrightarrow> p (Resume t) st \<noteq> None)"

text \<open>A \<open>perform\<close> extends another when it returns all that the other returns.\<close>

definition extends :: "perform \<Rightarrow> perform \<Rightarrow> bool" where
  "extends p p' \<longleftrightarrow> (\<forall>req st r. p req st = Some r \<longrightarrow> p' req st = Some r)"

section \<open>An example graph\<close>

text \<open>
  A blog: post 1 has the comments 2 and 3, each comment belongs to post 1 (a cycle of
  length two) and has the author 4. User 4 has no posts, the friends 5 and 4 and the
  followers 4 and 5; record 5 is a guest whose class does not have the mixin. Record 6
  is a post whose \<open>copyableOptions\<close> ignore \<open>comments\<close>, record 7 a post whose
  \<open>copyableOptions\<close> overwrite \<open>comments\<close> with no comments. The attribute
  \<open>born\<close> of a user has the type \<open>date\<close>, a type with a transform.
\<close>

definition no_opts :: opts where
  "no_opts = Opts None None None None None None None None"

definition post :: model_record where
  "post = \<lparr> modelName = ''post'', IS_COPYABLE = True, copyableOptions = None,
            attributes = [(''title'', Some ''string'', VUndefined)],
            relationshipsByName = [(''comments'', hasMany)],
            props = [''title'' \<mapsto> VStr ''x'', ''comments'' \<mapsto> VArray [VRecord 2, VRecord 3]] \<rparr>"

definition comment :: model_record where
  "comment = \<lparr> modelName = ''comment'', IS_COPYABLE = True, copyableOptions = None,
               attributes = [],
               relationshipsByName = [(''author'', belongsTo), (''post'', belongsTo)],
               props = [''author'' \<mapsto> VRecord 4, ''post'' \<mapsto> VRecord 1] \<rparr>"

definition user :: model_record where
  "user = \<lparr> modelName = ''user'', IS_COPYABLE = True, copyableOptions = None,
            attributes = [(''name'', Some ''string'', VUndefined), (''born'', Some ''date'', VUndefined)],
            relationshipsByName = [(''posts'', hasMany), (''friends'', hasMany), (''followers'', hasMany)],
            props = [''name'' \<mapsto> VStr ''u'', ''born'' \<mapsto> VObject 7, ''posts'' \<mapsto> VArray [],
                     ''friends'' \<mapsto> VArray [VRecord 5, VRecord 4],
                     ''followers'' \<mapsto> VArray [VRecord 4, VRecord 5]] \<rparr>"

definition guest :: model_record where
  "guest = \<lparr> modelName = ''guest'', IS_COPYABLE = False, copyableOptions = None,
             attributes = [], relationshipsByName = [], props = Map.empty \<rparr>"

definition draft :: model_record where
  "draft = post\<lparr> copyableOptions := Some (Opts (Some [''comments'']) None None None None None None None) \<rparr>"

definition pinned :: model_record where
  "pinned = post\<lparr> copyableOptions :=
              Some (Opts None None None (Some [''comments'' \<mapsto> VArray []]) None None None None) \<rparr>"

definition clone_date :: transform where
  "clone_date =
     \<lparr> serialize = (\<lambda>v opts. case v of VObject x \<Rightarrow> Inr (VNum (int x)) | _ \<Rightarrow> Inr VNull),
       deserialize = (\<lambda>w opts. case w of VNum x \<Rightarrow> Inr (VObject (Suc (nat x))) | _ \<Rightarrow> Inr VNull) \<rparr>"

definition blog_with :: "(string \<Rightarrow> error + transform) \<Rightarrow> env" where
  "blog_with tr =
     \<lparr> records = [(1, post), (2, comment), (3, comment), (4, user), (5, guest), (6, draft),
                   (7, pinned)],
       Copyable_detect = (\<lambda>v. False),
       value_copy = (\<lambda>v d. Inr v),
       getTransform = tr,
       private_api = True \<rparr>"

definition blog :: env where
  "blog = blog_with (\<lambda>t. Inr clone_date)"

text \<open>The same blog where no transform is found: copying a user throws.\<close>

definition broken_blog :: env where
  "broken_blog = blog_with (\<lambda>t. Inl (Thrown (VStr ''no transform'')))"

definition empty_store :: state where
  "empty_store = \<lparr> objects = (\<lambda>c. \<lparr> clone_model = None, clone_props = Map.empty \<rparr>),
                   loaded = {}, next_id = 0, copies = [], links = [] \<rparr>"

text \<open>Options of the examples: \<open>title\<close> ignored, by reference and overwritten with
  \<open>'y'\<close>; \<open>title\<close> overwritten with \<open>undefined\<close>; \<open>title\<close> and \<open>comments\<close>
  ignored; \<open>createAsModel\<close> false.\<close>

definition retitled :: opts where
  "retitled = Opts (Some [''title'']) None (Some [''title'']) (Some [''title'' \<mapsto> VStr ''y''])
                None None None None"

definition untitled :: opts where
  "untitled = Opts None None None (Some [''title'' \<mapsto> VUndefined]) None None None None"

definition as_object :: opts where
  "as_object = Opts None None None None None (Some False) None None"


text \<open>The states of the examples, each the state in which a run ends.\<close>

definition after_user :: state where
  "after_user = snd (the (COPY_TASK 6 blog 4 True None empty_store))"

definition after_post :: state where
  "after_post = snd (the (COPY_TASK 6 blog 1 True None after_user))"

definition failed_copy :: state where
  "failed_copy = snd (the (COPY_TASK 6 broken_blog 2 True None (empty_store\<lparr>copies := []\<rparr>)))"

definition retitled_post :: state where
  "retitled_post = snd (the (COPY_TASK 6 blog 1 True (Some retitled) empty_store))"

definition untitled_post :: state where
  "untitled_post = snd (the (COPY_TASK 6 blog 1 True (Some untitled) empty_store))"


definition shallow_post :: state where
  "shallow_post = snd (the (COPY_TASK 6 blog 1 False (Some no_opts) empty_store))"

definition shallow_draft :: state where
  "shallow_draft = snd (the (COPY_TASK_RUNNER 6 blog 6 False (Some no_opts) empty_store))"

definition shallow_pinned :: state where
  "shallow_pinned = snd (the (COPY_TASK_RUNNER 6 blog 7 False (Some no_opts) empty_store))"

definition started_comments :: state where
  "started_comments = snd (invoke blog True None [VRecord 2, VRecord 3] empty_store)"

definition after_comments :: state where
  "after_comments =
     snd (the (deep_copy_relationship blog (task_instance 6 blog) post True DEFAULT_OPTIONS
                 ''comments'' hasMany empty_store))"

definition rolled_back :: state where
  "rolled_back = snd (the (COPY_TASK_RUNNER 6 broken_blog 2 True None empty_store))"

definition failed_object :: state where
  "failed_object = snd (the (COPY_TASK_RUNNER 6 broken_blog 2 True (Some as_object) empty_store))"



section \<open>Properties of the copy task\<close>

subsection \<open>The target and the first visit\<close>

lemma create_model_fst: "fst (create_model options r st) = next_id st"
  by (simp add: create_model_def createRecord_def create_object_def split: option.splits)

lemma create_model_next: "next_id (snd (create_model options r st)) = Suc (next_id st)"
  by (simp add: create_model_def createRecord_def create_object_def split: option.splits)

lemma create_model_copies: "copies (snd (create_model options r st)) = copies st"
  by (simp add: create_model_def createRecord_def create_object_def split: option.splits)

lemma create_model_loaded:
  "loaded (snd (create_model options r st)) \<subseteq> insert (next_id st) (loaded st)"
  by (auto simp: create_model_def createRecord_def create_object_def split: option.splits)

lemma create_model_objects:
  "c \<noteq> next_id st \<Longrightarrow> objects (snd (create_model options r st)) c = objects st c"
  by (simp add: create_model_def createRecord_def create_object_def split: option.splits)


lemma create_model_kind:
  "clone_model (objects (snd (create_model options r st)) (next_id st)) =
     (if createAsModel options then Some (modelName r) else None)"
  by (simp add: create_model_def createRecord_def create_object_def split: option.splits)

lemma create_model_eq:
  "create_model options r st = (next_id st, snd (create_model options r st))"
  by (metis create_model_fst prod.collapse)

text \<open>
  The loop over the relationships is its turns before the first \<open>yield\<close> and then the
  rest: a task that is started and then resumed does what the loop does.
\<close>

lemma copy_relationships_until_yield:
  "copy_relationships env p this m deep options rels rAttrs st =
     (case until_yield env this m deep options rels rAttrs st of
        (rA, rest, st') \<Rightarrow> copy_relationships env p this m deep options rest rA st')"
proof (induction rels arbitrary: rAttrs st)
  case Nil
  then show ?case by simp
next
  case (Cons a rels)
  obtain name knd where a: "a = (name, knd)" by (cases a)
  consider (ow) "\<not> isUndefined (js_get (overwrite options) name)"
    | (link) "isUndefined (js_get (overwrite options) name)" "\<not> deep \<or> name \<in> set (copyByReference options)"
    | (deep) "isUndefined (js_get (overwrite options) name)" "\<not> (\<not> deep \<or> name \<in> set (copyByReference options))"
    by blast
  then show ?case
  proof cases
    case ow
    have "copy_relationships env p this m deep options (a # rels) rAttrs st =
          copy_relationships env p this m deep options rels
            (rAttrs(name \<mapsto> js_get (overwrite options) name)) st"
      using ow a by simp
    also have "\<dots> = (case until_yield env this m deep options rels
                          (rAttrs(name \<mapsto> js_get (overwrite options) name)) st of
                     (rA, rest, st') \<Rightarrow> copy_relationships env p this m deep options rest rA st')"
      by (rule Cons.IH)
    also have "\<dots> = (case until_yield env this m deep options (a # rels) rAttrs st of
                     (rA, rest, st') \<Rightarrow> copy_relationships env p this m deep options rest rA st')"
      using ow a by simp
    finally show ?thesis .
  next
    case link
    show ?thesis
    proof (cases "link_members env this m name st")
      case (Inl e)
      have "copy_relationships env p this m deep options (a # rels) rAttrs st =
            copy_relationships env p this m deep options rels
              (rAttrs(name \<mapsto> js_get (props this) name)) st"
        using link Inl a by simp
      also have "\<dots> = (case until_yield env this m deep options rels
                            (rAttrs(name \<mapsto> js_get (props this) name)) st of
                       (rA, rest, st') \<Rightarrow> copy_relationships env p this m deep options rest rA st')"
        by (rule Cons.IH)
      also have "\<dots> = (case until_yield env this m deep options (a # rels) rAttrs st of
                       (rA, rest, st') \<Rightarrow> copy_relationships env p this m deep options rest rA st')"
        using link Inl a by simp
      finally show ?thesis .
    next
      case (Inr st1)
      have "copy_relationships env p this m deep options (a # rels) rAttrs st =
            copy_relationships env p this m deep options rels rAttrs st1"
        using link Inr a by simp
      also have "\<dots> = (case until_yield env this m deep options rels rAttrs st1 of
                       (rA, rest, st') \<Rightarrow> copy_relationships env p this m deep options rest rA st')"
        by (rule Cons.IH)
      also have "\<dots> = (case until_yield env this m deep options (a # rels) rAttrs st of
                       (rA, rest, st') \<Rightarrow> copy_relationships env p this m deep options rest rA st')"
        using link Inr a by simp
      finally show ?thesis .
    qed
  next
    case deep
    with a show ?thesis by simp
  qed
qed

lemma COPY_TASK_0 [simp]: "COPY_TASK 0 env this deep opts_arg meta = None"
  by (simp add: COPY_TASK_def)

lemma COPY_TASK_no_record [simp]:
  "map_of (records env) this = None \<Longrightarrow>
   COPY_TASK (Suc n) env this deep opts_arg meta = Some (Inl TypeError, meta)"
  by (simp add: COPY_TASK_def start_task_def)

lemma COPY_TASK_fresh:
  assumes "map_of (records env) this = Some r" and "map_of (copies meta) this = None"
  shows "COPY_TASK (Suc n) env this deep opts_arg meta =
     (case eachAttribute env r deep (merged_options r opts_arg) (attributes r) Map.empty of
        Inl e \<Rightarrow>
          Some (Inl e, register_copy this (next_id meta)
                         (snd (create_model (merged_options r opts_arg) r meta)))
      | Inr dAttrs \<Rightarrow>
          (case copy_relationships env (task_instance n env) r (next_id meta) deep
                  (merged_options r opts_arg)
                  (eachRelationship (merged_options r opts_arg) r) Map.empty
                  (register_copy this (next_id meta)
                     (snd (create_model (merged_options r opts_arg) r meta))) of
             None \<Rightarrow> None
           | Some (Inl e, st3) \<Rightarrow> Some (Inl e, st3)
           | Some (Inr rAttrs, st3) \<Rightarrow>
               Some (Inr (next_id meta),
                     setProperties (next_id meta)
                       (getProperties r (otherAttributes (merged_options r opts_arg)) ++ dAttrs
                          ++ rAttrs ++ overwrite (merged_options r opts_arg)) st3)))"
proof -
  let ?o = "merged_options r opts_arg"
  obtain st1 where cm: "create_model ?o r meta = (next_id meta, st1)"
    by (metis create_model_eq)
  let ?st2 = "register_copy this (next_id meta) st1"
  obtain rA rest st3 where uy:
    "until_yield env r (next_id meta) deep ?o (eachRelationship ?o r) Map.empty ?st2 = (rA, rest, st3)"
    by (metis prod_cases3)
  have loop: "copy_relationships env (task_instance n env) r (next_id meta) deep ?o
                (eachRelationship ?o r) Map.empty ?st2 =
              copy_relationships env (task_instance n env) r (next_id meta) deep ?o rest rA st3"
    by (subst copy_relationships_until_yield) (simp add: uy)
  show ?thesis
  proof (cases rest)
    case Nil
    with assms show ?thesis
      by (simp add: COPY_TASK_def start_task_def cm uy loop Let_def split: sum.splits)
  next
    case (Cons rel rels)
    with assms show ?thesis
      by (simp add: COPY_TASK_def start_task_def resume_task_def cm uy loop Let_def
          split: sum.splits option.splits prod.splits)
  qed
qed

lemma COPY_TASK_memo:
  assumes "map_of (records env) this = Some r" and "map_of (copies meta) this = Some c"
  shows "COPY_TASK (Suc n) env this deep opts_arg meta = Some (Inr c, meta)"
  using assms by (simp add: COPY_TASK_def start_task_def Let_def)

text \<open>A task that is started and then resumed is the task that is performed.\<close>

lemma start_then_resume:
  "COPY_TASK (Suc n) env this deep opts_arg meta =
     (case start_task env this deep opts_arg meta of
        (Returned c, st) \<Rightarrow> Some (Inr c, st)
      | (Threw e, st) \<Rightarrow> Some (Inl e, st)
      | (Suspended t, st) \<Rightarrow> task_instance (Suc n) env (Resume t) st)"
  by (simp add: COPY_TASK_def split: prod.splits started.splits)

subsection \<open>The relations\<close>

lemma grows_refl: "grows st st"
  by (simp add: grows_def)

lemma grows_trans: "grows a b \<Longrightarrow> grows b c \<Longrightarrow> grows a c"
proof -
  assume ab: "grows a b" and bc: "grows b c"
  from ab obtain ys where ys: "copies b = copies a @ ys" by (auto simp: grows_def)
  from bc obtain zs where zs: "copies c = copies b @ zs" by (auto simp: grows_def)
  have "loaded c \<subseteq> loaded b \<union> snd ` set (copies c)" using bc by (simp add: grows_def)
  moreover have "loaded b \<subseteq> loaded a \<union> snd ` set (copies b)" using ab by (simp add: grows_def)
  moreover have "snd ` set (copies b) \<subseteq> snd ` set (copies c)" using zs by auto
  ultimately have "loaded c \<subseteq> loaded a \<union> snd ` set (copies c)" by blast
  moreover have "next_id a \<le> next_id c" using ab bc by (simp add: grows_def)
  moreover have "copies c = copies a @ (ys @ zs)" using ys zs by simp
  ultimately show ?thesis unfolding grows_def by blast
qed

lemma grows_map_of: "grows st st' \<Longrightarrow> map_of (copies st) g = Some c \<Longrightarrow> map_of (copies st') g = Some c"
  by (auto simp: grows_def)

lemma grows_next_id: "grows st st' \<Longrightarrow> next_id st \<le> next_id st'"
  by (simp add: grows_def)

lemma keeps_refl: "keeps st st"
  by (simp add: keeps_def)

lemma keeps_trans: "grows a b \<Longrightarrow> keeps a b \<Longrightarrow> keeps b c \<Longrightarrow> keeps a c"
  by (auto simp: keeps_def grows_def)

lemma keeps_but_refl: "keeps_but m st st"
  by (simp add: keeps_but_def)

lemma keeps_but_trans: "grows a b \<Longrightarrow> keeps_but m a b \<Longrightarrow> keeps_but m b c \<Longrightarrow> keeps_but m a c"
  by (auto simp: keeps_but_def grows_def)

lemma keeps_keeps_but: "m < next_id st \<Longrightarrow> keeps st st' \<Longrightarrow> keeps_but m st st'"
  by (auto simp: keeps_but_def keeps_def)

lemma instance_of_grows:
  "grows st st' \<Longrightarrow> instance_of st b g s \<Longrightarrow> b' \<le> b \<Longrightarrow> instance_of st' b' g s"
  by (auto simp: instance_of_def grows_def split: started.splits)

lemma member_instance_grows:
  "grows st st' \<Longrightarrow> member_instance env st b m s \<Longrightarrow> b' \<le> b \<Longrightarrow> member_instance env st' b' m s"
  by (auto simp: member_instance_def intro: instance_of_grows split: option.splits)

subsection \<open>Every task keeps the session sound\<close>

text \<open>
  A task may only add entries to \<open>copies\<close>, allocate new objects and leave the objects
  it found as they are, but its own copy; what it returns is the entry of its record.
  The loops keep this when the tasks they perform do, and so the copy task does at every
  depth.
\<close>

lemma sound_performD:
  "sound_perform p \<Longrightarrow> p (Perform g d ro) st = Some (r, st') \<Longrightarrow> grows st st' \<and> keeps st st'"
  unfolding sound_perform_def by blast

lemma sound_perform_recorded:
  "sound_perform p \<Longrightarrow> p (Perform g d ro) st = Some (Inr c, st') \<Longrightarrow> map_of (copies st') g = Some c"
  unfolding sound_perform_def by blast

lemma sound_resumeD:
  "sound_perform p \<Longrightarrow> p (Resume t) st = Some (r, st') \<Longrightarrow> task_model t < next_id st \<Longrightarrow>
   grows st st' \<and> keeps_but (task_model t) st st' \<and> (\<forall>c. r = Inr c \<longrightarrow> c = task_model t)"
  unfolding sound_perform_def by blast

lemma register_copy_simps:
  "copies (register_copy g m st) = copies st @ [(g, m)]"
  "next_id (register_copy g m st) = next_id st"
  "objects (register_copy g m st) = objects st"
  "loaded (register_copy g m st) = loaded st"
  "links (register_copy g m st) = links st"
  by (simp_all add: register_copy_def)

lemma setProperties_simps:
  "copies (setProperties m attrs st) = copies st"
  "next_id (setProperties m attrs st) = next_id st"
  "loaded (setProperties m attrs st) = loaded st"
  "links (setProperties m attrs st) = links st"
  "c \<noteq> m \<Longrightarrow> objects (setProperties m attrs st) c = objects st c"
  "clone_props (objects (setProperties m attrs st) m) = clone_props (objects st m) ++ attrs"
  "clone_model (objects (setProperties m attrs st) m) = clone_model (objects st m)"
  by (simp_all add: setProperties_def)

lemma start_grows:
  "grows st (register_copy g (next_id st) (snd (create_model options r st)))"
  "keeps st (register_copy g (next_id st) (snd (create_model options r st)))"
  using create_model_loaded[of options r st]
  by (auto simp: grows_def keeps_def register_copy_simps create_model_copies create_model_next
      create_model_objects)

text \<open>A link of members is a call on the store: it leaves the session as it is.\<close>

lemma link_members_effect:
  "link_members env this m name st = Inr st' \<Longrightarrow>
     st' = st\<lparr> links := links st @ [(m, name, js_get (props this) name)] \<rparr>"
  by (auto simp: link_members_def split: if_splits)

lemma link_members_grows:
  "link_members env this m name st = Inr st' \<Longrightarrow>
     grows st st' \<and> keeps_but m st st' \<and> objects st' = objects st \<and>
     copies st' = copies st \<and> next_id st' = next_id st \<and> loaded st' = loaded st"
  by (auto simp: link_members_def grows_def keeps_but_def split: if_splits)

lemma until_yield_effect:
  "until_yield env this m deep options rels rAttrs st = (rA, rest, st') \<Longrightarrow>
     objects st' = objects st \<and> copies st' = copies st \<and> next_id st' = next_id st \<and>
     loaded st' = loaded st"
proof (induction rels arbitrary: rAttrs st)
  case Nil
  then show ?case by simp
next
  case (Cons a rels)
  obtain name knd where a: "a = (name, knd)" by (cases a)
  consider (ow) "\<not> isUndefined (js_get (overwrite options) name)"
    | (link) "isUndefined (js_get (overwrite options) name)" "\<not> deep \<or> name \<in> set (copyByReference options)"
    | (deep) "isUndefined (js_get (overwrite options) name)" "\<not> (\<not> deep \<or> name \<in> set (copyByReference options))"
    by blast
  then show ?case
  proof cases
    case ow
    with Cons.prems a have
      "until_yield env this m deep options rels (rAttrs(name \<mapsto> js_get (overwrite options) name)) st = (rA, rest, st')"
      by simp
    from Cons.IH[OF this] show ?thesis .
  next
    case link
    show ?thesis
    proof (cases "link_members env this m name st")
      case (Inl e)
      with link Cons.prems a have
        "until_yield env this m deep options rels (rAttrs(name \<mapsto> js_get (props this) name)) st = (rA, rest, st')"
        by simp
      from Cons.IH[OF this] show ?thesis .
    next
      case (Inr st1)
      with link Cons.prems a have "until_yield env this m deep options rels rAttrs st1 = (rA, rest, st')"
        by simp
      from Cons.IH[OF this] link_members_grows[OF Inr] show ?thesis by simp
    qed
  next
    case deep
    with Cons.prems a show ?thesis by simp
  qed
qed

text \<open>
  The start of a task: it lets the session grow and keeps its objects, and the task
  instance is that of its record.
\<close>

lemma start_task_sound:
  assumes "start_task env g d ro st = (s, st')"
  shows "grows st st' \<and> keeps st st' \<and> instance_of st' (next_id st) g s"
proof (cases "map_of (records env) g")
  case None
  with assms show ?thesis
    by (auto simp: start_task_def grows_refl keeps_refl instance_of_def)
next
  case (Some rec)
  show ?thesis
  proof (cases "map_of (copies st) g")
    case (Some c)
    with \<open>map_of (records env) g = Some rec\<close> assms show ?thesis
      by (auto simp: start_task_def Let_def grows_refl keeps_refl instance_of_def)
  next
    case None
    let ?o = "merged_options rec ro"
    let ?m = "next_id st"
    obtain st1 where cm: "create_model ?o rec st = (?m, st1)" by (metis create_model_eq)
    then have st1: "st1 = snd (create_model ?o rec st)" by simp
    let ?st2 = "register_copy g ?m st1"
    have g0: "grows st ?st2" and k0: "keeps st ?st2" unfolding st1 by (rule start_grows)+
    have n2: "next_id ?st2 = Suc ?m" by (simp add: register_copy_simps st1 create_model_next)
    have rec2: "map_of (copies ?st2) g = Some ?m"
      using None by (simp add: register_copy_simps st1 create_model_copies map_add_Some_iff)
    show ?thesis
    proof (cases "eachAttribute env rec d ?o (attributes rec) Map.empty")
      case (Inl e)
      with \<open>map_of (records env) g = Some rec\<close> None assms cm have "st' = ?st2" "s = Threw e"
        by (auto simp: start_task_def Let_def)
      with g0 k0 show ?thesis by (simp add: instance_of_def)
    next
      case (Inr dAttrs)
      obtain rA rest st3 where uy:
        "until_yield env rec ?m d ?o (eachRelationship ?o rec) Map.empty ?st2 = (rA, rest, st3)"
        by (metis prod_cases3)
      note e3 = until_yield_effect[OF uy]
      have g3: "grows st st3" using g0 e3 by (simp add: grows_def)
      have k3: "keeps st st3" using k0 e3 by (simp add: keeps_def)
      have rec3: "map_of (copies st3) g = Some ?m" using rec2 e3 by simp
      have n3: "next_id st3 = Suc ?m" using n2 e3 by simp
      show ?thesis
      proof (cases rest)
        case Nil
        with \<open>map_of (records env) g = Some rec\<close> None assms cm Inr uy
        obtain attrs where "st' = setProperties ?m attrs st3" "s = Returned ?m"
          by (auto simp: start_task_def Let_def)
        with g3 k3 rec3 show ?thesis
          by (auto simp: grows_def keeps_def setProperties_simps instance_of_def)
      next
        case (Cons rel rels)
        with \<open>map_of (records env) g = Some rec\<close> None assms cm Inr uy
        obtain t where "st' = st3" "s = Suspended t" "task_model t = ?m"
          by (auto simp: start_task_def Let_def)
        with g3 k3 rec3 n3 show ?thesis
          by (simp add: instance_of_def)
      qed
    qed
  qed
qed

lemma invoke_sound:
  "invoke env d ro ms st = (ts, st') \<Longrightarrow>
     grows st st' \<and> keeps st st' \<and> list_all2 (member_instance env st' (next_id st)) ms ts"
proof (induction ms arbitrary: st ts)
  case Nil
  then show ?case by (simp add: grows_refl keeps_refl)
next
  case (Cons m ms)
  show ?case
  proof (cases "task_of env m")
    case None
    with Cons.prems obtain ts0 where rest: "invoke env d ro ms st = (ts0, st')" and ts: "ts = None # ts0"
      by (auto split: prod.splits)
    from Cons.IH[OF rest] None ts show ?thesis
      by (simp add: member_instance_def)
  next
    case (Some g)
    obtain s st1 where s1: "start_task env g d ro st = (s, st1)" by (cases "start_task env g d ro st")
    with Some Cons.prems obtain ts0 where rest: "invoke env d ro ms st1 = (ts0, st')"
      and ts: "ts = Some s # ts0"
      by (auto split: prod.splits)
    from start_task_sound[OF s1] have g1: "grows st st1" and k1: "keeps st st1"
      and i1: "instance_of st1 (next_id st) g s" by auto
    from Cons.IH[OF rest] have g2: "grows st1 st'" and k2: "keeps st1 st'"
      and l2: "list_all2 (member_instance env st' (next_id st1)) ms ts0" by auto
    have le: "next_id st \<le> next_id st1" using g1 by (rule grows_next_id)
    have "member_instance env st' (next_id st) m (Some s)"
      using instance_of_grows[OF g2 i1 order_refl] Some by (simp add: member_instance_def)
    moreover have "list_all2 (member_instance env st' (next_id st)) ms ts0"
      using l2 by (rule list_all2_mono) (rule member_instance_grows[OF grows_refl _ le])
    ultimately show ?thesis
      using g1 g2 k1 k2 ts by (auto intro: grows_trans keeps_trans)
  qed
qed

text \<open>The array of the task instances is the list without the holes at its end.\<close>

lemma array_of_prefix: "\<exists>k. xs = array_of xs @ replicate k None"
proof (induction xs)
  case Nil
  then show ?case by simp
next
  case (Cons x xs)
  then obtain k where k: "xs = array_of xs @ replicate k None" by blast
  show ?case
  proof (cases "array_of xs")
    case Nil
    with k have xs: "xs = replicate k None" by simp
    show ?thesis
    proof (cases x)
      case None
      with Nil xs have "x # xs = array_of (x # xs) @ replicate (Suc k) None" by simp
      then show ?thesis by blast
    next
      case (Some y)
      with Nil xs have "x # xs = array_of (x # xs) @ replicate k None" by simp
      then show ?thesis by blast
    qed
  next
    case (Cons y ys)
    with k have "x # xs = array_of (x # xs) @ replicate k None" by simp
    then show ?thesis by blast
  qed
qed

lemma array_of_nth:
  assumes "i < length xs" and "xs ! i \<noteq> None"
  shows "i < length (array_of xs) \<and> array_of xs ! i = xs ! i"
proof -
  obtain k where k: "xs = array_of xs @ replicate k None" using array_of_prefix by blast
  have "i < length (array_of xs)"
  proof (rule ccontr)
    assume "\<not> i < length (array_of xs)"
    then have "(array_of xs @ replicate k None) ! i = replicate k None ! (i - length (array_of xs))"
      by (simp add: nth_append)
    moreover have "i - length (array_of xs) < k"
      using assms(1) \<open>\<not> i < length (array_of xs)\<close> by (subst (asm) k) simp
    ultimately have "(array_of xs @ replicate k None) ! i = None" by simp
    with assms(2) k show False by simp
  qed
  moreover from this have "(array_of xs @ replicate k None) ! i = array_of xs ! i"
    by (simp add: nth_append)
  ultimately show ?thesis using k by simp
qed

lemma array_of_length: "length (array_of xs) \<le> length xs"
proof -
  obtain k where "xs = array_of xs @ replicate k None" using array_of_prefix by blast
  then have "length xs = length (array_of xs) + k" by (metis length_append length_replicate)
  then show ?thesis by simp
qed

lemma array_of_set: "set (array_of xs) \<subseteq> set xs"
proof -
  obtain k where "xs = array_of xs @ replicate k None" using array_of_prefix by blast
  then have "set xs = set (array_of xs) \<union> set (replicate k None)" by (metis set_append)
  then show ?thesis by blast
qed

text \<open>
  Waiting for the task instances: the tasks that are resumed write to their own copies,
  which were made since the identity \<open>b\<close> was free, and to no object before it.
\<close>

lemma all_tasks_sound:
  assumes "sound_perform p"
  shows "(\<forall>t. Some (Suspended t) \<in> set ts \<longrightarrow> b \<le> task_model t \<and> task_model t < next_id st) \<Longrightarrow>
         all_tasks p ts st = Some (r, st') \<Longrightarrow>
         grows st st' \<and> (\<forall>c<b. objects st' c = objects st c) \<and>
         (\<forall>cs. r = Inr cs \<longrightarrow> list_all2 awaited ts cs)"
proof (induction ts arbitrary: st r st')
  case Nil
  then show ?case by (auto simp: grows_refl)
next
  case (Cons a ts)
  have wf: "\<forall>t. Some (Suspended t) \<in> set ts \<longrightarrow> b \<le> task_model t \<and> task_model t < next_id st"
    using Cons.prems(1) by auto
  show ?case
  proof (cases a)
    case None
    with Cons.prems(2) obtain r0 where
      rest: "all_tasks p ts st = Some (r0, st')"
      and r: "r = (case r0 of Inl e \<Rightarrow> Inl e | Inr cs \<Rightarrow> Inr (VUndefined # cs))"
      by (auto split: option.splits sum.splits prod.splits)
    from Cons.IH[OF wf rest] r None show ?thesis
      by (auto simp: awaited_def split: sum.splits)
  next
    case (Some s)
    show ?thesis
    proof (cases s)
      case (Returned c)
      with Some Cons.prems(2) obtain r0 where
        rest: "all_tasks p ts st = Some (r0, st')"
        and r: "r = (case r0 of Inl e \<Rightarrow> Inl e | Inr cs \<Rightarrow> Inr (VClone c # cs))"
        by (auto split: option.splits sum.splits prod.splits)
      from Cons.IH[OF wf rest] r Some Returned show ?thesis
        by (auto simp: awaited_def split: sum.splits)
    next
      case (Threw e)
      with Some Cons.prems(2) show ?thesis by (auto simp: grows_refl)
    next
      case (Suspended t)
      with Some Cons.prems(1) have bt: "b \<le> task_model t" and tn: "task_model t < next_id st"
        by auto
      show ?thesis
      proof (cases "p (Resume t) st")
        case None
        with Some Suspended Cons.prems(2) show ?thesis by simp
      next
        case (Some x)
        then obtain r1 st1 where p1: "p (Resume t) st = Some (r1, st1)" by (cases x) auto
        from sound_resumeD[OF assms p1 tn] have g1: "grows st st1"
          and k1: "keeps_but (task_model t) st st1" and c1: "\<forall>c. r1 = Inr c \<longrightarrow> c = task_model t"
          by auto
        have o1: "\<forall>c<b. objects st1 c = objects st c"
          using k1 bt tn by (auto simp: keeps_but_def)
        show ?thesis
        proof (cases r1)
          case (Inl e)
          with p1 \<open>a = Some s\<close> Suspended Cons.prems(2) have "st' = st1" "r = Inl e" by auto
          with g1 o1 show ?thesis by auto
        next
          case (Inr c)
          with p1 \<open>a = Some s\<close> Suspended Cons.prems(2) obtain r0 where
            rest: "all_tasks p ts st1 = Some (r0, st')"
            and r: "r = (case r0 of Inl e \<Rightarrow> Inl e | Inr cs \<Rightarrow> Inr (VClone c # cs))"
            by (auto split: option.splits sum.splits prod.splits)
          have wf1: "\<forall>t. Some (Suspended t) \<in> set ts \<longrightarrow> b \<le> task_model t \<and> task_model t < next_id st1"
            using wf grows_next_id[OF g1] by fastforce
          from Cons.IH[OF wf1 rest] have g2: "grows st1 st'"
            and o2: "\<forall>c<b. objects st' c = objects st1 c"
            and l2: "\<forall>cs. r0 = Inr cs \<longrightarrow> list_all2 awaited ts cs" by auto
          from c1 Inr have "c = task_model t" by simp
          with \<open>a = Some s\<close> Suspended have "awaited a (VClone c)" by (simp add: awaited_def)
          with l2 r g1 g2 o1 o2 show ?thesis
            by (auto intro: grows_trans split: sum.splits)
        qed
      qed
    qed
  qed
qed

text \<open>
  The result of \<open>all\<close> over the members \<open>ms\<close>: it is no longer than \<open>ms\<close>, and at
  the index of every member that has a copy task it holds the copy registered for that
  member.
\<close>

lemma perform_all_sound:
  assumes "sound_perform p" and "perform_all env p d ro ms st = Some (r, st')"
  shows "grows st st' \<and> keeps st st' \<and>
         (\<forall>cs. r = Inr cs \<longrightarrow>
            length cs \<le> length ms \<and>
            (\<forall>i<length ms. \<forall>g. task_of env (ms ! i) = Some g \<longrightarrow>
               i < length cs \<and> (\<exists>k. cs ! i = VClone k \<and> map_of (copies st') g = Some k)))"
proof -
  obtain ts st1 where inv: "invoke env d ro ms st = (ts, st1)" by (cases "invoke env d ro ms st")
  with assms(2) have al: "all_tasks p (array_of ts) st1 = Some (r, st')"
    by (simp add: perform_all_def)
  from invoke_sound[OF inv] have g1: "grows st st1" and k1: "keeps st st1"
    and mi: "list_all2 (member_instance env st1 (next_id st)) ms ts" by auto
  from mi have len: "length ts = length ms" by (simp add: list_all2_lengthD)
  have wf: "\<forall>t. Some (Suspended t) \<in> set (array_of ts) \<longrightarrow>
              next_id st \<le> task_model t \<and> task_model t < next_id st1"
  proof (intro allI impI)
    fix t assume "Some (Suspended t) \<in> set (array_of ts)"
    with array_of_set have "Some (Suspended t) \<in> set ts" by blast
    then obtain i where i: "i < length ts" "ts ! i = Some (Suspended t)"
      by (auto simp: in_set_conv_nth)
    with mi len have "member_instance env st1 (next_id st) (ms ! i) (Some (Suspended t))"
      by (metis list_all2_nthD2)
    then show "next_id st \<le> task_model t \<and> task_model t < next_id st1"
      by (auto simp: member_instance_def instance_of_def split: option.splits)
  qed
  from all_tasks_sound[OF assms(1) wf al] have g2: "grows st1 st'"
    and o2: "\<forall>c<next_id st. objects st' c = objects st1 c"
    and aw: "\<forall>cs. r = Inr cs \<longrightarrow> list_all2 awaited (array_of ts) cs" by auto
  have k: "keeps st st'" using k1 o2 by (simp add: keeps_def)
  have res: "length cs \<le> length ms \<and>
            (\<forall>i<length ms. \<forall>g. task_of env (ms ! i) = Some g \<longrightarrow>
               i < length cs \<and> (\<exists>k. cs ! i = VClone k \<and> map_of (copies st') g = Some k))"
    if r: "r = Inr cs" for cs
  proof -
    from aw r have l2: "list_all2 awaited (array_of ts) cs" by simp
    then have lc: "length cs = length (array_of ts)" by (simp add: list_all2_lengthD)
    have "length cs \<le> length ms" using lc array_of_length[of ts] len by simp
    moreover have "i < length cs \<and> (\<exists>k. cs ! i = VClone k \<and> map_of (copies st') g = Some k)"
      if i: "i < length ms" and tg: "task_of env (ms ! i) = Some g" for i g
    proof -
      from mi i have "member_instance env st1 (next_id st) (ms ! i) (ts ! i)"
        by (simp add: list_all2_nthD)
      with tg obtain x where x: "ts ! i = Some x" and io: "instance_of st1 (next_id st) g x"
        by (auto simp: member_instance_def split: option.splits)
      from array_of_nth[of i ts] i len x have ia: "i < length (array_of ts)"
        and ai: "array_of ts ! i = Some x" by auto
      from l2 ia have "awaited (array_of ts ! i) (cs ! i)" by (simp add: list_all2_nthD)
      with ai have a: "awaited (Some x) (cs ! i)" by simp
      from instance_of_grows[OF g2 io order_refl] have io': "instance_of st' (next_id st) g x" .
      from a io' have "\<exists>k. cs ! i = VClone k \<and> map_of (copies st') g = Some k"
        by (cases x) (auto simp: awaited_def instance_of_def)
      with ia lc show ?thesis by simp
    qed
    ultimately show ?thesis by blast
  qed
  from g1 g2 have "grows st st'" by (rule grows_trans)
  with k res show ?thesis by blast
qed

lemma deep_copy_relationship_sound:
  assumes "sound_perform p"
    and "deep_copy_relationship env p this deep options name knd st = Some (r, st')"
  shows "grows st st' \<and> keeps st st'"
proof -
  have pa: "\<And>d ro ms r st'. perform_all env p d ro ms st = Some (r, st') \<Longrightarrow> grows st st' \<and> keeps st st'"
    using perform_all_sound[OF assms(1)] by blast
  have pp: "\<And>g d ro r st'. p (Perform g d ro) st = Some (r, st') \<Longrightarrow> grows st st' \<and> keeps st st'"
    using sound_performD[OF assms(1)] by blast
  show ?thesis
    using assms(2)
    by (auto simp: deep_copy_relationship_def Let_def grows_refl keeps_refl
        split: kind.splits if_splits sum.splits option.splits prod.splits dest: pa pp)
qed

lemma copy_relationships_sound:
  assumes "sound_perform p"
  shows "m < next_id st \<Longrightarrow>
         copy_relationships env p this m deep options rels rAttrs st = Some (r, st') \<Longrightarrow>
         grows st st' \<and> keeps_but m st st' \<and>
         (\<forall>k. k \<notin> fst ` set rels \<longrightarrow> clone_props (objects st' m) k = clone_props (objects st m) k)"
proof (induction rels arbitrary: rAttrs st)
  case Nil
  then show ?case by (simp add: grows_refl keeps_but_refl)
next
  case (Cons a rels)
  obtain name knd where a: "a = (name, knd)" by (cases a)
  consider (ow) "\<not> isUndefined (js_get (overwrite options) name)"
    | (link) "isUndefined (js_get (overwrite options) name)" "\<not> deep \<or> name \<in> set (copyByReference options)"
    | (deep) "isUndefined (js_get (overwrite options) name)" "\<not> (\<not> deep \<or> name \<in> set (copyByReference options))"
    by blast
  then show ?case
  proof cases
    case ow
    with Cons.prems a have
      "copy_relationships env p this m deep options rels (rAttrs(name \<mapsto> js_get (overwrite options) name)) st = Some (r, st')"
      by simp
    from Cons.IH[OF Cons.prems(1) this] a show ?thesis by simp
  next
    case link
    show ?thesis
    proof (cases "link_members env this m name st")
      case (Inl e)
      with link Cons.prems a have
        "copy_relationships env p this m deep options rels (rAttrs(name \<mapsto> js_get (props this) name)) st = Some (r, st')"
        by simp
      from Cons.IH[OF Cons.prems(1) this] a show ?thesis by simp
    next
      case (Inr st1)
      with link Cons.prems a have rest:
        "copy_relationships env p this m deep options rels rAttrs st1 = Some (r, st')"
        by simp
      from link_members_grows[OF Inr] have g1: "grows st st1" and k1: "keeps_but m st st1"
        and p1: "objects st1 = objects st"
        by auto
      from g1 Cons.prems(1) have "m < next_id st1" by (simp add: grows_def)
      from Cons.IH[OF this rest] have g2: "grows st1 st'" and k2: "keeps_but m st1 st'"
        and p2: "\<forall>k. k \<notin> fst ` set rels \<longrightarrow> clone_props (objects st' m) k = clone_props (objects st1 m) k"
        by auto
      from g1 g2 k1 k2 p1 p2 a show ?thesis
        by (auto intro: grows_trans keeps_but_trans)
    qed
  next
    case deep
    show ?thesis
    proof (cases "deep_copy_relationship env p this deep options name knd st")
      case None
      with deep Cons.prems a show ?thesis by simp
    next
      case (Some b)
      then obtain r1 st1 where d1: "deep_copy_relationship env p this deep options name knd st = Some (r1, st1)"
        by (cases b) auto
      from deep_copy_relationship_sound[OF assms d1] have g1: "grows st st1" and kk: "keeps st st1"
        by auto
      from kk Cons.prems(1) have k1: "keeps_but m st st1"
        and p1: "clone_props (objects st1 m) = clone_props (objects st m)"
        by (auto simp: keeps_keeps_but keeps_def)
      show ?thesis
      proof (cases r1)
        case (Inl e)
        with d1 deep Cons.prems a have "st' = st1" by simp
        with g1 k1 p1 show ?thesis by simp
      next
        case (Inr v)
        with d1 deep Cons.prems a have rest:
          "copy_relationships env p this m deep options rels (rAttrs(name \<mapsto> v)) st1 = Some (r, st')"
          by simp
        from g1 Cons.prems(1) have "m < next_id st1" by (simp add: grows_def)
        from Cons.IH[OF this rest] have g2: "grows st1 st'" and k2: "keeps_but m st1 st'"
          and p2: "\<forall>k. k \<notin> fst ` set rels \<longrightarrow> clone_props (objects st' m) k = clone_props (objects st1 m) k"
          by auto
        from g1 g2 k1 k2 p1 p2 a show ?thesis
          by (auto intro: grows_trans keeps_but_trans)
      qed
    qed
  qed
qed

lemma copy_relationships_grows:
  assumes "sound_perform p"
  shows "copy_relationships env p this m deep options rels rAttrs st = Some (r, st') \<Longrightarrow> grows st st'"
proof (induction rels arbitrary: rAttrs st)
  case Nil
  then show ?case by (simp add: grows_refl)
next
  case (Cons a rels)
  obtain name knd where a: "a = (name, knd)" by (cases a)
  consider (ow) "\<not> isUndefined (js_get (overwrite options) name)"
    | (link) "isUndefined (js_get (overwrite options) name)" "\<not> deep \<or> name \<in> set (copyByReference options)"
    | (deep) "isUndefined (js_get (overwrite options) name)" "\<not> (\<not> deep \<or> name \<in> set (copyByReference options))"
    by blast
  then show ?case
  proof cases
    case ow
    with Cons.prems a Cons.IH show ?thesis by simp
  next
    case link
    show ?thesis
    proof (cases "link_members env this m name st")
      case (Inl e)
      with link Cons.prems a Cons.IH show ?thesis by simp
    next
      case (Inr st1)
      with link Cons.prems a have rest:
        "copy_relationships env p this m deep options rels rAttrs st1 = Some (r, st')"
        by simp
      from link_members_grows[OF Inr] Cons.IH[OF rest] show ?thesis
        by (auto intro: grows_trans)
    qed
  next
    case deep
    show ?thesis
    proof (cases "deep_copy_relationship env p this deep options name knd st")
      case None
      with deep Cons.prems a show ?thesis by simp
    next
      case (Some b)
      then obtain r1 st1 where d1: "deep_copy_relationship env p this deep options name knd st = Some (r1, st1)"
        by (cases b) auto
      from deep_copy_relationship_sound[OF assms d1] have g1: "grows st st1" by simp
      show ?thesis
      proof (cases r1)
        case (Inl e)
        with d1 deep Cons.prems a have "st' = st1" by simp
        with g1 show ?thesis by simp
      next
        case (Inr v)
        with d1 deep Cons.prems a have rest:
          "copy_relationships env p this m deep options rels (rAttrs(name \<mapsto> v)) st1 = Some (r, st')"
          by simp
        from g1 Cons.IH[OF rest] show ?thesis by (rule grows_trans)
      qed
    qed
  qed
qed

lemma copy_relationships_rAttrs:
  "copy_relationships env p this m deep options rels rAttrs st = Some (Inr rA, st') \<Longrightarrow>
     k \<notin> fst ` set rels \<Longrightarrow> rA k = rAttrs k"
proof (induction rels arbitrary: rAttrs st)
  case Nil
  then show ?case by simp
next
  case (Cons a rels)
  obtain name knd where a: "a = (name, knd)" by (cases a)
  from Cons.prems(2) a have nk: "k \<noteq> name" and kr: "k \<notin> fst ` set rels" by auto
  from Cons.prems(1) a obtain rAttrs1 st1 where
    rest: "copy_relationships env p this m deep options rels rAttrs1 st1 = Some (Inr rA, st')"
    and r1: "rAttrs1 k = rAttrs k"
    using nk
    by (auto split: if_splits sum.splits option.splits prod.splits)
  from Cons.IH[OF rest kr] r1 show ?case by simp
qed

lemma resume_task_sound:
  assumes "sound_perform p" and "resume_task env p t st = Some (r, st')"
    and "task_model t < next_id st"
  shows "grows st st' \<and> keeps_but (task_model t) st st' \<and> (\<forall>c. r = Inr c \<longrightarrow> c = task_model t)"
proof -
  from assms(2) obtain r3 st3 where loop:
    "copy_relationships env p (task_this t) (task_model t) (task_deep t) (task_options t)
       (task_relationships t) (task_rAttrs t) st = Some (r3, st3)"
    by (auto simp: resume_task_def split: option.splits)
  from copy_relationships_sound[OF assms(1,3) loop]
  have g3: "grows st st3" and k3: "keeps_but (task_model t) st st3" by auto
  show ?thesis
  proof (cases r3)
    case (Inl e)
    with loop assms(2) have "st' = st3" "r = Inl e" by (auto simp: resume_task_def)
    with g3 k3 show ?thesis by simp
  next
    case (Inr rAttrs)
    with loop assms(2) obtain attrs where "st' = setProperties (task_model t) attrs st3"
      "r = Inr (task_model t)"
      by (auto simp: resume_task_def Let_def)
    with g3 k3 show ?thesis
      by (auto simp: grows_def keeps_but_def setProperties_simps)
  qed
qed

lemma task_instance_Perform:
  "task_instance n env (Perform g d ro) st = COPY_TASK n env g d ro st"
  by (simp add: COPY_TASK_def)

lemma task_instance_Resume:
  "task_instance (Suc n) env (Resume t) st = resume_task env (task_instance n env) t st"
  by simp

lemma task_instance_sound: "sound_perform (task_instance n env)"
proof (induction n)
  case 0
  then show ?case by (simp add: sound_perform_def)
next
  case (Suc n)
  have perf: "grows st st' \<and> keeps st st' \<and> (\<forall>c. r = Inr c \<longrightarrow> map_of (copies st') g = Some c)"
    if run: "COPY_TASK (Suc n) env g d ro st = Some (r, st')" for g d ro st r st'
  proof (cases "map_of (records env) g")
    case None
    with run show ?thesis by (auto simp: grows_refl keeps_refl)
  next
    case (Some rec)
    show ?thesis
    proof (cases "map_of (copies st) g")
      case (Some c)
      with \<open>map_of (records env) g = Some rec\<close> run show ?thesis
        by (auto simp: COPY_TASK_memo grows_refl keeps_refl)
    next
      case None
      let ?o = "merged_options rec ro"
      let ?m = "next_id st"
      let ?st2 = "register_copy g ?m (snd (create_model ?o rec st))"
      note fresh = COPY_TASK_fresh[OF \<open>map_of (records env) g = Some rec\<close> None, of n d ro]
      have g0: "grows st ?st2" and k0: "keeps st ?st2" by (rule start_grows)+
      have m2: "?m < next_id ?st2" by (simp add: register_copy_simps create_model_next)
      have rec2: "map_of (copies ?st2) g = Some ?m"
        using None by (simp add: register_copy_simps create_model_copies map_add_Some_iff)
      show ?thesis
      proof (cases "eachAttribute env rec d ?o (attributes rec) Map.empty")
        case (Inl e)
        with fresh run have "st' = ?st2" "r = Inl e" by auto
        with g0 k0 show ?thesis by simp
      next
        case (Inr dAttrs)
        show ?thesis
        proof (cases "copy_relationships env (task_instance n env) rec ?m d ?o (eachRelationship ?o rec) Map.empty ?st2")
          case None
          with Inr fresh run show ?thesis by simp
        next
          case (Some b)
          then obtain r3 st3 where loop:
            "copy_relationships env (task_instance n env) rec ?m d ?o (eachRelationship ?o rec) Map.empty ?st2 = Some (r3, st3)"
            by (cases b) auto
          from copy_relationships_sound[OF Suc m2 loop]
          have g3: "grows ?st2 st3" and k3: "keeps_but ?m ?st2 st3" by auto
          have g03: "grows st st3" using g0 g3 by (rule grows_trans)
          have k03: "keeps st st3"
            using k0 k3 by (auto simp: keeps_def keeps_but_def register_copy_simps create_model_next)
          have rec3: "map_of (copies st3) g = Some ?m" using g3 rec2 by (rule grows_map_of)
          show ?thesis
          proof (cases r3)
            case (Inl e)
            with loop Inr fresh run have "st' = st3" "r = Inl e" by auto
            with g03 k03 show ?thesis by simp
          next
            case (Inr rAttrs)
            with loop \<open>eachAttribute env rec d ?o (attributes rec) Map.empty = Inr dAttrs\<close> fresh run
            obtain attrs where "st' = setProperties ?m attrs st3" "r = Inr ?m" by auto
            with g03 k03 rec3 show ?thesis
              by (auto simp: grows_def keeps_def setProperties_simps)
          qed
        qed
      qed
    qed
  qed
  show ?case
    unfolding sound_perform_def
  proof (rule conjI; intro allI impI)
    fix g d ro st r st'
    assume "task_instance (Suc n) env (Perform g d ro) st = Some (r, st')"
    then have "COPY_TASK (Suc n) env g d ro st = Some (r, st')"
      by (simp only: task_instance_Perform)
    from perf[OF this]
    show "grows st st' \<and> keeps st st' \<and> (\<forall>c. r = Inr c \<longrightarrow> map_of (copies st') g = Some c)" .
  next
    fix t st r st'
    assume run: "task_instance (Suc n) env (Resume t) st = Some (r, st')"
      and tn: "task_model t < next_id st"
    from run have "resume_task env (task_instance n env) t st = Some (r, st')"
      by (simp only: task_instance_Resume)
    from resume_task_sound[OF Suc this tn]
    show "grows st st' \<and> keeps_but (task_model t) st st' \<and> (\<forall>c. r = Inr c \<longrightarrow> c = task_model t)" .
  qed
qed

lemma COPY_TASK_sound:
  "COPY_TASK n env g d ro st = Some (r, st') \<Longrightarrow> grows st st' \<and> keeps st st'"
  using sound_performD[OF task_instance_sound] by (simp add: COPY_TASK_def)

lemma COPY_TASK_recorded:
  "COPY_TASK n env g d ro st = Some (Inr c, st') \<Longrightarrow> map_of (copies st') g = Some c"
  using sound_perform_recorded[OF task_instance_sound] by (simp add: COPY_TASK_def)

subsection \<open>Termination\<close>

text \<open>
  The records of the graph without an entry in \<open>copies\<close> become fewer with every
  first visit, and every nested task starts after the entry of its caller is made; a
  task that is resumed has made its entry when it was started.
\<close>

lemma unvisited_grows: "grows st st' \<Longrightarrow> unvisited env st' \<le> unvisited env st"
  unfolding unvisited_def grows_def
  by (intro card_mono) auto

lemma unvisited_le: "unvisited env st \<le> length (records env)"
proof -
  have "unvisited env st \<le> card (fst ` set (records env))"
    unfolding unvisited_def by (intro card_mono) auto
  also have "\<dots> \<le> card (set (records env))" by (rule card_image_le) simp
  also have "\<dots> \<le> length (records env)" by (rule card_length)
  finally show ?thesis .
qed

lemma unvisited_copies:
  assumes "map_of (records env) g = Some r" and "map_of (copies st) g = None"
    and "copies st' = copies st @ [(g, m)]"
  shows "unvisited env st' < unvisited env st"
proof -
  have gin: "g \<in> fst ` set (records env)"
    using assms(1) by (metis map_of_eq_None_iff option.distinct(1))
  have gout: "g \<notin> fst ` set (copies st)"
    using assms(2) by (simp add: map_of_eq_None_iff)
  have "fst ` set (records env) - fst ` set (copies st @ [(g, m)])
          \<subset> fst ` set (records env) - fst ` set (copies st)"
    using gin gout by auto
  then show ?thesis
    unfolding unvisited_def assms(3)
    by (intro psubset_card_mono) auto
qed

lemma unvisited_register:
  assumes "map_of (records env) g = Some r" and "map_of (copies st) g = None"
  shows "unvisited env (register_copy g m (snd (create_model options r st))) < unvisited env st"
  using assms by (rule unvisited_copies) (simp add: register_copy_simps create_model_copies)

lemma start_task_unvisited:
  assumes "start_task env g d ro st = (Suspended t, st')"
  shows "unvisited env st' < unvisited env st"
proof -
  from assms obtain rec where rec: "map_of (records env) g = Some rec"
    by (auto simp: start_task_def split: option.splits)
  from assms rec have fresh: "map_of (copies st) g = None"
    by (auto simp: start_task_def Let_def split: option.splits)
  let ?o = "merged_options rec ro"
  obtain st1 where cm: "create_model ?o rec st = (next_id st, st1)" by (metis create_model_eq)
  then have st1: "st1 = snd (create_model ?o rec st)" by simp
  let ?st2 = "register_copy g (next_id st) st1"
  obtain rA rest st3 where uy:
    "until_yield env rec (next_id st) d ?o (eachRelationship ?o rec) Map.empty ?st2 = (rA, rest, st3)"
    by (metis prod_cases3)
  from assms rec fresh cm uy have "st' = st3"
    by (auto simp: start_task_def Let_def split: sum.splits list.splits)
  with until_yield_effect[OF uy] have "copies st' = copies st @ [(g, next_id st)]"
    by (simp add: register_copy_simps st1 create_model_copies)
  with rec fresh show ?thesis by (rule unvisited_copies)
qed

lemma invoke_suspended:
  assumes "invoke env d ro ms st = (ts, st')" and "Some (Suspended t) \<in> set ts"
  shows "next_id st \<le> task_model t \<and> task_model t < next_id st'"
proof -
  from invoke_sound[OF assms(1)]
  have mi: "list_all2 (member_instance env st' (next_id st)) ms ts" by simp
  from assms(2) obtain i where i: "i < length ts" "ts ! i = Some (Suspended t)"
    by (auto simp: in_set_conv_nth)
  with mi have "member_instance env st' (next_id st) (ms ! i) (Some (Suspended t))"
    by (metis list_all2_nthD2)
  then show ?thesis
    by (auto simp: member_instance_def instance_of_def split: option.splits)
qed

lemma invoke_unvisited:
  "invoke env d ro ms st = (ts, st') \<Longrightarrow> Some (Suspended t) \<in> set ts \<Longrightarrow>
     unvisited env st' < unvisited env st"
proof (induction ms arbitrary: st ts)
  case Nil
  then show ?case by simp
next
  case (Cons m ms)
  show ?case
  proof (cases "task_of env m")
    case None
    with Cons.prems(1) obtain ts0 where rest: "invoke env d ro ms st = (ts0, st')" and ts: "ts = None # ts0"
      by (auto split: prod.splits)
    with Cons.prems(2) have "Some (Suspended t) \<in> set ts0" by simp
    from Cons.IH[OF rest this] show ?thesis .
  next
    case (Some g)
    obtain s st1 where s1: "start_task env g d ro st = (s, st1)" by (cases "start_task env g d ro st")
    with Some Cons.prems(1) obtain ts0 where rest: "invoke env d ro ms st1 = (ts0, st')"
      and ts: "ts = Some s # ts0"
      by (auto split: prod.splits)
    from start_task_sound[OF s1] have "grows st st1" by simp
    from unvisited_grows[OF this, of env] have le1: "unvisited env st1 \<le> unvisited env st" .
    from invoke_sound[OF rest] have "grows st1 st'" by simp
    from unvisited_grows[OF this, of env] have le2: "unvisited env st' \<le> unvisited env st1" .
    show ?thesis
    proof (cases "s = Suspended t")
      case True
      with s1 have "unvisited env st1 < unvisited env st" by (simp add: start_task_unvisited)
      with le2 show ?thesis by simp
    next
      case False
      with Cons.prems(2) ts have "Some (Suspended t) \<in> set ts0" by simp
      from Cons.IH[OF rest this] le1 show ?thesis by simp
    qed
  qed
qed

lemma all_tasks_returns:
  assumes "sound_perform p"
    and "\<And>t st. Suc (unvisited env st) < n \<Longrightarrow> p (Resume t) st \<noteq> None"
  shows "(\<forall>t. Some (Suspended t) \<in> set ts \<longrightarrow> task_model t < next_id st \<and> Suc (unvisited env st) < n) \<Longrightarrow>
         all_tasks p ts st \<noteq> None"
proof (induction ts arbitrary: st)
  case Nil
  then show ?case by simp
next
  case (Cons a ts)
  have wf: "\<forall>t. Some (Suspended t) \<in> set ts \<longrightarrow> task_model t < next_id st \<and> Suc (unvisited env st) < n"
    using Cons.prems by auto
  show ?case
  proof (cases a)
    case None
    with Cons.IH[OF wf] show ?thesis
      by (auto split: option.splits sum.splits prod.splits)
  next
    case (Some s)
    show ?thesis
    proof (cases s)
      case (Returned c)
      with Some Cons.IH[OF wf] show ?thesis
        by (auto split: option.splits sum.splits prod.splits)
    next
      case (Threw e)
      with Some show ?thesis by simp
    next
      case (Suspended t)
      with Some Cons.prems have tn: "task_model t < next_id st" and u: "Suc (unvisited env st) < n"
        by auto
      from assms(2)[OF u] obtain r1 st1 where p1: "p (Resume t) st = Some (r1, st1)" by fastforce
      from sound_resumeD[OF assms(1) p1 tn] have g1: "grows st st1" by simp
      have "\<forall>t. Some (Suspended t) \<in> set ts \<longrightarrow> task_model t < next_id st1 \<and> Suc (unvisited env st1) < n"
        using wf grows_next_id[OF g1] unvisited_grows[OF g1, of env] by fastforce
      from Cons.IH[OF this] p1 Some Suspended show ?thesis
        by (auto split: option.splits sum.splits prod.splits)
    qed
  qed
qed

lemma perform_all_returns:
  assumes "sound_perform p" and "returns_below env n p" and "unvisited env st < n"
  shows "perform_all env p d ro ms st \<noteq> None"
proof -
  obtain ts st1 where inv: "invoke env d ro ms st = (ts, st1)" by (cases "invoke env d ro ms st")
  have res: "\<And>t st. Suc (unvisited env st) < n \<Longrightarrow> p (Resume t) st \<noteq> None"
    using assms(2) unfolding returns_below_def by blast
  have "\<forall>t. Some (Suspended t) \<in> set (array_of ts) \<longrightarrow>
          task_model t < next_id st1 \<and> Suc (unvisited env st1) < n"
  proof (intro allI impI)
    fix t assume "Some (Suspended t) \<in> set (array_of ts)"
    with array_of_set have t: "Some (Suspended t) \<in> set ts" by blast
    from invoke_suspended[OF inv t] invoke_unvisited[OF inv t] assms(3)
    show "task_model t < next_id st1 \<and> Suc (unvisited env st1) < n" by simp
  qed
  from all_tasks_returns[OF assms(1) res this] inv show ?thesis
    by (simp add: perform_all_def)
qed

lemma deep_copy_relationship_returns:
  assumes "sound_perform p" and "returns_below env n p" and "unvisited env st < n"
  shows "deep_copy_relationship env p this deep options name knd st \<noteq> None"
proof -
  let ?ro = "map_of (relationships options) name"
  let ?d = "deepRel_of ?ro deep"
  have pa: "perform_all env p ?d ?ro (members_of (js_get (props this) name)) st = None \<Longrightarrow> False"
    using perform_all_returns[OF assms] by blast
  have pp: "\<And>g. p (Perform g ?d ?ro) st = None \<Longrightarrow> False"
    using assms(2,3) unfolding returns_below_def by blast
  show ?thesis
    by (auto simp: deep_copy_relationship_def Let_def
        split: kind.splits sum.splits option.splits prod.splits dest: pa pp)
qed

lemma copy_relationships_returns:
  assumes "sound_perform p" and "returns_below env n p"
  shows "unvisited env st < n \<Longrightarrow>
         copy_relationships env p this m deep options rels rAttrs st \<noteq> None"
proof (induction rels arbitrary: rAttrs st)
  case Nil
  then show ?case by simp
next
  case (Cons a rels)
  obtain name knd where a: "a = (name, knd)" by (cases a)
  consider (ow) "\<not> isUndefined (js_get (overwrite options) name)"
    | (link) "isUndefined (js_get (overwrite options) name)" "\<not> deep \<or> name \<in> set (copyByReference options)"
    | (deep) "isUndefined (js_get (overwrite options) name)" "\<not> (\<not> deep \<or> name \<in> set (copyByReference options))"
    by blast
  then show ?case
  proof cases
    case ow
    with Cons.IH[OF Cons.prems] a show ?thesis by simp
  next
    case link
    show ?thesis
    proof (cases "link_members env this m name st")
      case (Inl e)
      with link Cons.IH[OF Cons.prems] a show ?thesis by simp
    next
      case (Inr st1)
      from link_members_grows[OF Inr] have "grows st st1" by simp
      from unvisited_grows[OF this, of env] Cons.prems have "unvisited env st1 < n" by simp
      from Cons.IH[OF this] link Inr a show ?thesis by simp
    qed
  next
    case deep
    from deep_copy_relationship_returns[OF assms Cons.prems]
    obtain r1 st1 where d1: "deep_copy_relationship env p this deep options name knd st = Some (r1, st1)"
      by fastforce
    from deep_copy_relationship_sound[OF assms(1) d1] have "grows st st1" by simp
    from unvisited_grows[OF this, of env] Cons.prems have "unvisited env st1 < n" by simp
    from Cons.IH[OF this] deep d1 a show ?thesis
      by (auto split: sum.splits)
  qed
qed

lemma task_instance_returns: "returns_below env n (task_instance n env)"
proof (induction n)
  case 0
  then show ?case by (simp add: returns_below_def)
next
  case (Suc n)
  have perf: "COPY_TASK (Suc n) env g d ro st \<noteq> None" if u: "unvisited env st < Suc n" for g d ro st
  proof (cases "map_of (records env) g")
    case None
    then show ?thesis by simp
  next
    case (Some rec)
    show ?thesis
    proof (cases "map_of (copies st) g")
      case (Some c)
      with \<open>map_of (records env) g = Some rec\<close> show ?thesis by (simp add: COPY_TASK_memo)
    next
      case None
      let ?o = "merged_options rec ro"
      let ?st2 = "register_copy g (next_id st) (snd (create_model ?o rec st))"
      from unvisited_register[OF \<open>map_of (records env) g = Some rec\<close> None] u
      have u2: "unvisited env ?st2 < n" by (metis less_Suc_eq less_trans_Suc not_less_eq)
      from copy_relationships_returns[OF task_instance_sound Suc u2]
      have "copy_relationships env (task_instance n env) rec (next_id st) d ?o (eachRelationship ?o rec) Map.empty ?st2 \<noteq> None" .
      then show ?thesis
        unfolding COPY_TASK_fresh[OF \<open>map_of (records env) g = Some rec\<close> None]
        by (auto split: sum.splits option.splits prod.splits)
    qed
  qed
  show ?case
    unfolding returns_below_def
  proof (rule conjI; intro allI impI)
    fix g d ro st
    assume "unvisited env st < Suc n"
    from perf[OF this] show "task_instance (Suc n) env (Perform g d ro) st \<noteq> None"
      unfolding task_instance_Perform .
  next
    fix t :: suspended and st
    assume "Suc (unvisited env st) < Suc n"
    then have "unvisited env st < n" by simp
    from copy_relationships_returns[OF task_instance_sound Suc this]
    have "copy_relationships env (task_instance n env) (task_this t) (task_model t) (task_deep t)
            (task_options t) (task_relationships t) (task_rAttrs t) st \<noteq> None" .
    then show "task_instance (Suc n) env (Resume t) st \<noteq> None"
      by (auto simp: resume_task_def Let_def split: option.splits sum.splits prod.splits)
  qed
qed

lemma COPY_TASK_returns: "unvisited env st < n \<Longrightarrow> COPY_TASK n env g d ro st \<noteq> None"
  using task_instance_returns[of env n] by (simp add: returns_below_def COPY_TASK_def)

subsection \<open>The depth bound only cuts runs off\<close>

text \<open>
  What a task returns or throws within a depth it returns or throws within every greater
  depth, in the same state: the bound decides whether a run is seen to its end, never
  what the run does.
\<close>

lemma all_tasks_mono:
  assumes "extends p p'"
  shows "all_tasks p ts st = Some r \<Longrightarrow> all_tasks p' ts st = Some r"
proof (induction ts arbitrary: st r)
  case Nil
  then show ?case by simp
next
  case (Cons a ts)
  show ?case
  proof (cases a)
    case None
    with Cons.prems obtain r0 where "all_tasks p ts st = Some r0"
      by (auto split: option.splits)
    with Cons.IH[OF this] Cons.prems None show ?thesis by simp
  next
    case (Some s)
    show ?thesis
    proof (cases s)
      case (Returned c)
      with Some Cons.prems obtain r0 where "all_tasks p ts st = Some r0"
        by (auto split: option.splits)
      with Cons.IH[OF this] Cons.prems Some Returned show ?thesis by simp
    next
      case (Threw e)
      with Some Cons.prems show ?thesis by simp
    next
      case (Suspended t)
      with Some Cons.prems obtain r1 st1 where p1: "p (Resume t) st = Some (r1, st1)"
        by (auto split: option.splits)
      with assms have p1': "p' (Resume t) st = Some (r1, st1)" unfolding extends_def by blast
      show ?thesis
      proof (cases r1)
        case (Inl e)
        with Some Suspended p1 p1' Cons.prems show ?thesis by simp
      next
        case (Inr c)
        with Some Suspended p1 Cons.prems obtain r0 where r0: "all_tasks p ts st1 = Some r0"
          by (auto split: option.splits)
        with Cons.IH[OF r0] Some Suspended p1 p1' Inr Cons.prems show ?thesis by simp
      qed
    qed
  qed
qed

lemma perform_all_mono:
  assumes "extends p p'" and "perform_all env p d ro ms st = Some r"
  shows "perform_all env p' d ro ms st = Some r"
  using assms(2) all_tasks_mono[OF assms(1)]
  by (auto simp: perform_all_def split: prod.splits)

lemma deep_copy_relationship_mono:
  assumes "extends p p'"
    and "deep_copy_relationship env p this deep options name knd st = Some r"
  shows "deep_copy_relationship env p' this deep options name knd st = Some r"
proof -
  let ?ro = "map_of (relationships options) name"
  let ?d = "deepRel_of ?ro deep"
  have pa: "\<And>x. perform_all env p ?d ?ro (members_of (js_get (props this) name)) st = Some x \<Longrightarrow>
                 perform_all env p' ?d ?ro (members_of (js_get (props this) name)) st = Some x"
    using perform_all_mono[OF assms(1)] .
  have pp: "\<And>g x. p (Perform g ?d ?ro) st = Some x \<Longrightarrow> p' (Perform g ?d ?ro) st = Some x"
    using assms(1) unfolding extends_def by blast
  show ?thesis
    using assms(2)
    by (auto simp: deep_copy_relationship_def Let_def pa pp
        split: kind.splits if_splits sum.splits option.splits prod.splits)
qed

lemma copy_relationships_mono:
  assumes "extends p p'"
  shows "copy_relationships env p this m deep options rels rAttrs st = Some r \<Longrightarrow>
         copy_relationships env p' this m deep options rels rAttrs st = Some r"
proof (induction rels arbitrary: rAttrs st)
  case Nil
  then show ?case by simp
next
  case (Cons a rels)
  obtain name knd where a: "a = (name, knd)" by (cases a)
  consider (ow) "\<not> isUndefined (js_get (overwrite options) name)"
    | (link) "isUndefined (js_get (overwrite options) name)" "\<not> deep \<or> name \<in> set (copyByReference options)"
    | (deep) "isUndefined (js_get (overwrite options) name)" "\<not> (\<not> deep \<or> name \<in> set (copyByReference options))"
    by blast
  then show ?case
  proof cases
    case ow
    with Cons.prems a Cons.IH show ?thesis by simp
  next
    case link
    with Cons.prems a Cons.IH show ?thesis by (cases "link_members env this m name st") simp_all
  next
    case deep
    with Cons.prems a obtain r1 st1 where
      d1: "deep_copy_relationship env p this deep options name knd st = Some (r1, st1)"
      by (auto split: option.splits)
    from deep_copy_relationship_mono[OF assms d1]
    have d1': "deep_copy_relationship env p' this deep options name knd st = Some (r1, st1)" .
    from deep d1 d1' Cons.prems a Cons.IH show ?thesis
      by (cases r1) simp_all
  qed
qed

lemma resume_task_mono:
  assumes "extends p p'" and "resume_task env p t st = Some r"
  shows "resume_task env p' t st = Some r"
proof -
  from assms(2) obtain x where loop:
    "copy_relationships env p (task_this t) (task_model t) (task_deep t) (task_options t)
       (task_relationships t) (task_rAttrs t) st = Some x"
    by (auto simp: resume_task_def split: option.splits)
  from copy_relationships_mono[OF assms(1) loop] loop assms(2) show ?thesis
    by (simp add: resume_task_def)
qed

lemma task_instance_Suc_mono: "extends (task_instance n env) (task_instance (Suc n) env)"
proof (induction n)
  case 0
  then show ?case by (simp add: extends_def)
next
  case (Suc n)
  show ?case
    unfolding extends_def
  proof (intro allI impI)
    fix req st r
    assume run: "task_instance (Suc n) env req st = Some r"
    have h: "resume_task env (task_instance n env) t s = Some x \<Longrightarrow>
             resume_task env (task_instance (Suc n) env) t s = Some x" for t s x
      by (rule resume_task_mono[OF Suc])
    from run show "task_instance (Suc (Suc n)) env req st = Some r"
      by (subst task_instance.simps(2), subst (asm) task_instance.simps(2))
         (auto split: request.splits prod.splits started.splits dest: h)
  qed
qed

lemma task_instance_mono:
  "task_instance n env req st = Some r \<Longrightarrow> task_instance (n + k) env req st = Some r"
proof (induction k)
  case 0
  then show ?case by simp
next
  case (Suc k)
  with task_instance_Suc_mono[of "n + k" env] show ?case
    unfolding extends_def by (metis add_Suc_right)
qed

lemma COPY_TASK_mono:
  "COPY_TASK n env g d ro st = Some r \<Longrightarrow> COPY_TASK (n + k) env g d ro st = Some r"
  unfolding COPY_TASK_def by (rule task_instance_mono)

subsection \<open>A first visit that returns, and the passes over the fields\<close>

lemma COPY_TASK_success_fresh:
  assumes run: "COPY_TASK n env this deep opts_arg st = Some (Inr model, st')"
    and rec: "map_of (records env) this = Some r"
    and fresh: "map_of (copies st) this = None"
  obtains n' dAttrs rAttrs st3 where
    "n = Suc n'" "model = next_id st"
    "eachAttribute env r deep (merged_options r opts_arg) (attributes r) Map.empty = Inr dAttrs"
    "copy_relationships env (task_instance n' env) r (next_id st) deep (merged_options r opts_arg)
       (eachRelationship (merged_options r opts_arg) r) Map.empty
       (register_copy this (next_id st) (snd (create_model (merged_options r opts_arg) r st)))
       = Some (Inr rAttrs, st3)"
    "st' = setProperties (next_id st)
             (getProperties r (otherAttributes (merged_options r opts_arg)) ++ dAttrs ++ rAttrs
                ++ overwrite (merged_options r opts_arg)) st3"
proof -
  from run obtain n' where n: "n = Suc n'" by (cases n) auto
  from run show thesis
    unfolding n COPY_TASK_fresh[OF rec fresh]
    by (auto split: sum.splits option.splits prod.splits intro: that[OF n])
qed



text \<open>
  The \<open>forEach\<close> of the \<open>finally\<close> block comes to its end when every copy is a store
  record, and then none of them is loaded.
\<close>

lemma unload_copies_models:
  "\<forall>c \<in> snd ` set cs. clone_model (objects st c) \<noteq> None \<Longrightarrow>
   \<exists>st'. unload_copies cs st = (None, st') \<and> loaded st' = loaded st - snd ` set cs \<and>
     objects st' = objects st \<and> copies st' = copies st"
proof (induction cs arbitrary: st)
  case Nil
  then show ?case by simp
next
  case (Cons a cs)
  obtain key c where a: "a = (key, c)" by (cases a)
  let ?st1 = "st\<lparr> loaded := loaded st - {c} \<rparr>"
  from Cons.prems a have u: "unloadRecord c st = Inr ?st1"
    by (simp add: unloadRecord_def)
  have "\<forall>c \<in> snd ` set cs. clone_model (objects ?st1 c) \<noteq> None"
    using Cons.prems by simp
  from Cons.IH[OF this] obtain st' where
    "unload_copies cs ?st1 = (None, st')" "loaded st' = loaded ?st1 - snd ` set cs"
    "objects st' = objects ?st1" "copies st' = copies ?st1"
    by blast
  with u a show ?case by auto
qed

lemma deep_copy_relationship_overwrite:
  "deep_copy_relationship env p this deep (options\<lparr>overwrite := ow\<rparr>) name knd st =
   deep_copy_relationship env p this deep options name knd st"
  by (simp add: deep_copy_relationship_def)


lemma eachAttribute_other:
  "eachAttribute env this deep options attrs dAttrs = Inr d \<Longrightarrow>
   name \<notin> fst ` set attrs \<Longrightarrow> d name = dAttrs name"
proof (induction attrs arbitrary: dAttrs)
  case Nil
  then show ?case by simp
next
  case (Cons a attrs)
  obtain k t ao where a: "a = (k, t, ao)" by (cases a)
  from Cons.prems a have nk: "name \<noteq> k" and nr: "name \<notin> fst ` set attrs" by auto
  from Cons.prems a obtain d1 where
    step: "copy_attribute env this deep options (k, t, ao) dAttrs = Inr d1"
    and rest: "eachAttribute env this deep options attrs d1 = Inr d"
    by (auto split: sum.splits)
  from step nk have "d1 name = dAttrs name"
    by (auto split: if_splits sum.splits)
  with Cons.IH[OF rest nr] show ?case by simp
qed


subsection \<open>Shallow copies and relationships copied by reference\<close>

lemma defined_overwrite_Some: "\<not> isUndefined (js_get ow k) \<Longrightarrow> ow k \<noteq> None"
  by (auto simp: isUndefined_def js_get_def split: option.splits)

text \<open>
  The loop of a shallow copy: it performs no task and returns; of a relationship that is
  not overwritten the members are linked, on a store record with the private API, and
  else the value read is assigned.
\<close>

lemma shallow_loop:
  "\<exists>rA st'. copy_relationships env p this m False options rels rAttrs st = Some (Inr rA, st') \<and>
     copies st' = copies st \<and> next_id st' = next_id st \<and> objects st' = objects st \<and>
     set (links st) \<subseteq> set (links st') \<and>
     (\<forall>k \<in> fst ` set rels. overwrite options k = None \<longrightarrow>
        (if clone_model (objects st m) \<noteq> None \<and> private_api env
         then (m, k, js_get (props this) k) \<in> set (links st')
         else rA k = Some (js_get (props this) k)))"
proof (induction rels arbitrary: rAttrs st)
  case Nil
  then show ?case by simp
next
  case (Cons a rels)
  obtain name knd where a: "a = (name, knd)" by (cases a)
  let ?ok = "\<lambda>st. clone_model (objects st m) \<noteq> None \<and> private_api env"
  show ?case
  proof (cases "isUndefined (js_get (overwrite options) name)")
    case False
    let ?r1 = "rAttrs(name \<mapsto> js_get (overwrite options) name)"
    from Cons.IH[of ?r1 st] obtain rA st' where
      run: "copy_relationships env p this m False options rels ?r1 st = Some (Inr rA, st')"
      and cn: "copies st' = copies st" "next_id st' = next_id st" "objects st' = objects st"
        "set (links st) \<subseteq> set (links st')"
      and li: "\<forall>k \<in> fst ` set rels. overwrite options k = None \<longrightarrow>
        (if ?ok st then (m, k, js_get (props this) k) \<in> set (links st')
         else rA k = Some (js_get (props this) k))"
      by blast
    from run False a have r: "copy_relationships env p this m False options (a # rels) rAttrs st = Some (Inr rA, st')"
      by simp
    from defined_overwrite_Some[OF False] have ne: "overwrite options name \<noteq> None" .
    have "\<forall>k \<in> fst ` set (a # rels). overwrite options k = None \<longrightarrow>
        (if ?ok st then (m, k, js_get (props this) k) \<in> set (links st')
         else rA k = Some (js_get (props this) k))"
    proof (intro ballI impI)
      fix k assume k: "k \<in> fst ` set (a # rels)" and o: "overwrite options k = None"
      from o ne have kn: "k \<noteq> name" by auto
      with k a have "k \<in> fst ` set rels" by auto
      from bspec[OF li this] o
      show "if ?ok st then (m, k, js_get (props this) k) \<in> set (links st')
            else rA k = Some (js_get (props this) k)"
        by blast
    qed
    with r cn show ?thesis by blast
  next
    case True
    show ?thesis
    proof (cases "link_members env this m name st")
      case (Inl e)
      then have nok: "\<not> ?ok st" by (auto simp: link_members_def split: if_splits)
      let ?r1 = "rAttrs(name \<mapsto> js_get (props this) name)"
      from Cons.IH[of ?r1 st] obtain rA st' where
        run: "copy_relationships env p this m False options rels ?r1 st = Some (Inr rA, st')"
        and cn: "copies st' = copies st" "next_id st' = next_id st" "objects st' = objects st"
          "set (links st) \<subseteq> set (links st')"
        and li: "\<forall>k \<in> fst ` set rels. overwrite options k = None \<longrightarrow>
          (if ?ok st then (m, k, js_get (props this) k) \<in> set (links st')
           else rA k = Some (js_get (props this) k))"
        by blast
      from run True Inl a have r: "copy_relationships env p this m False options (a # rels) rAttrs st = Some (Inr rA, st')"
        by simp
      have "\<forall>k \<in> fst ` set (a # rels). overwrite options k = None \<longrightarrow>
          (if ?ok st then (m, k, js_get (props this) k) \<in> set (links st')
           else rA k = Some (js_get (props this) k))"
      proof (intro ballI impI)
        fix k assume k: "k \<in> fst ` set (a # rels)" and o: "overwrite options k = None"
        show "if ?ok st then (m, k, js_get (props this) k) \<in> set (links st')
              else rA k = Some (js_get (props this) k)"
        proof (cases "k \<in> fst ` set rels")
          case True
          from bspec[OF li this] o show ?thesis by blast
        next
          case False
          with k a have kn: "k = name" by auto
          from copy_relationships_rAttrs[OF run False] kn
          have "rA k = Some (js_get (props this) k)" by simp
          with nok show ?thesis by auto
        qed
      qed
      with r cn show ?thesis by blast
    next
      case (Inr st1)
      then have ok: "?ok st" by (auto simp: link_members_def split: if_splits)
      note eff = link_members_effect[OF Inr]
      have o1: "objects st1 = objects st" "copies st1 = copies st" "next_id st1 = next_id st"
        and l1: "links st1 = links st @ [(m, name, js_get (props this) name)]"
        by (simp_all add: eff)
      from Cons.IH[of rAttrs st1] obtain rA st' where
        run: "copy_relationships env p this m False options rels rAttrs st1 = Some (Inr rA, st')"
        and cn: "copies st' = copies st1" "next_id st' = next_id st1" "objects st' = objects st1"
          "set (links st1) \<subseteq> set (links st')"
        and li: "\<forall>k \<in> fst ` set rels. overwrite options k = None \<longrightarrow>
          (if ?ok st1 then (m, k, js_get (props this) k) \<in> set (links st')
           else rA k = Some (js_get (props this) k))"
        by blast
      from run True Inr a have r: "copy_relationships env p this m False options (a # rels) rAttrs st = Some (Inr rA, st')"
        by simp
      have in1: "(m, name, js_get (props this) name) \<in> set (links st')"
        using cn(4) l1 by auto
      have sub: "set (links st) \<subseteq> set (links st')" using cn(4) l1 by auto
      have "\<forall>k \<in> fst ` set (a # rels). overwrite options k = None \<longrightarrow>
          (if ?ok st then (m, k, js_get (props this) k) \<in> set (links st')
           else rA k = Some (js_get (props this) k))"
      proof (intro ballI impI)
        fix k assume k: "k \<in> fst ` set (a # rels)" and o: "overwrite options k = None"
        show "if ?ok st then (m, k, js_get (props this) k) \<in> set (links st')
              else rA k = Some (js_get (props this) k)"
        proof (cases "k \<in> fst ` set rels")
          case True
          from bspec[OF li this] o o1 ok show ?thesis by simp
        next
          case False
          with k a have "k = name" by auto
          with in1 ok show ?thesis by simp
        qed
      qed
      with r cn o1 sub show ?thesis by (metis (no_types, lifting))
    qed
  qed
qed

lemma shallow_loop_perform:
  "copy_relationships env p this m False options rels rAttrs st =
   copy_relationships env p' this m False options rels rAttrs st"
  by (induction rels arbitrary: rAttrs st) (auto split: sum.splits)

lemma shallow_depth:
  "COPY_TASK (Suc n) env this False opts_arg st = COPY_TASK (Suc 0) env this False opts_arg st"
proof (cases "map_of (records env) this")
  case None
  then show ?thesis by simp
next
  case (Some r)
  show ?thesis
  proof (cases "map_of (copies st) this")
    case (Some c)
    with \<open>map_of (records env) this = Some r\<close> show ?thesis by (simp add: COPY_TASK_memo)
  next
    case None
    have h: "copy_relationships env (task_instance n env) r m False options rels rAttrs s =
          copy_relationships env (task_instance 0 env) r m False options rels rAttrs s"
      for m options rels rAttrs s
      by (rule shallow_loop_perform)
    show ?thesis
      unfolding COPY_TASK_fresh[OF \<open>map_of (records env) this = Some r\<close> None]
      by (simp add: h split: sum.splits)
  qed
qed


subsection \<open>To-many relationships\<close>

lemma deep_hasMany_unfold:
  "deep_copy_relationship env p this deep options name hasMany st =
     (case firstObject (js_get (props this) name) of
        Inl e \<Rightarrow> Some (Inl e, st)
      | Inr first \<Rightarrow>
          (if truthy first then
             (case get_IS_COPYABLE env first of
                Inl e \<Rightarrow> Some (Inl e, st)
              | Inr None \<Rightarrow> Some (Inr (js_get (props this) name), st)
              | Inr (Some g) \<Rightarrow>
                  (case perform_all env p (deepRel_of (map_of (relationships options) name) deep)
                          (map_of (relationships options) name)
                          (members_of (js_get (props this) name)) st of
                     None \<Rightarrow> None
                   | Some (Inl e, st') \<Rightarrow> Some (Inl e, st')
                   | Some (Inr cs, st') \<Rightarrow> Some (Inr (VArray cs), st')))
           else Some (Inr (js_get (props this) name), st)))"
  by (simp add: deep_copy_relationship_def Let_def)

text \<open>
  The state in which \<open>all\<close> begins to wait: the tasks of the members that have one
  have been started one after the other, each with \<open>deepRel\<close> and \<open>relOptions\<close>
  in the session that the one before has left, and each has its entry in \<open>copies\<close>.
\<close>

lemma invoke_state:
  "snd (invoke env d ro ms st) =
     foldl (\<lambda>s g. snd (start_task env g d ro s)) st (List.map_filter (task_of env) ms)"
proof (induction ms arbitrary: st)
  case Nil
  then show ?case by (simp add: List.map_filter_simps)
next
  case (Cons m ms)
  show ?case
  proof (cases "task_of env m")
    case None
    with Cons.IH[of st] show ?thesis
      by (auto simp: List.map_filter_simps split: prod.splits)
  next
    case (Some g)
    with Cons.IH[of "snd (start_task env g d ro st)"] show ?thesis
      by (auto simp: List.map_filter_simps split: prod.splits)
  qed
qed

lemma invoke_nth:
  "i < length ms \<Longrightarrow>
     fst (invoke env d ro ms st) ! i =
       map_option (\<lambda>g. fst (start_task env g d ro (snd (invoke env d ro (take i ms) st))))
         (task_of env (ms ! i))"
proof (induction ms arbitrary: i st)
  case Nil
  then show ?case by simp
next
  case (Cons m ms)
  show ?case
  proof (cases i)
    case 0
    then show ?thesis by (auto split: option.splits prod.splits)
  next
    case (Suc j)
    with Cons.prems have j: "j < length ms" by simp
    show ?thesis
    proof (cases "task_of env m")
      case None
      with Cons.IH[OF j, of st] Suc show ?thesis
        by (auto split: prod.splits)
    next
      case (Some g)
      with Cons.IH[OF j, of "snd (start_task env g d ro st)"] Suc show ?thesis
        by (auto split: prod.splits)
    qed
  qed
qed

lemma task_of_record: "task_of env m = Some g \<Longrightarrow> map_of (records env) g \<noteq> None"
  by (cases m) (auto simp: task_of_def split: if_splits option.splits sum.splits)

lemma start_task_registered:
  assumes "map_of (records env) g \<noteq> None" and "start_task env g d ro st = (s, st')"
  shows "map_of (copies st') g \<noteq> None"
proof -
  from assms(1) obtain rec where rec: "map_of (records env) g = Some rec" by blast
  show ?thesis
  proof (cases "map_of (copies st) g")
    case (Some c)
    with rec assms(2) show ?thesis by (auto simp: start_task_def Let_def)
  next
    case None
    let ?o = "merged_options rec ro"
    obtain st1 where cm: "create_model ?o rec st = (next_id st, st1)" by (metis create_model_eq)
    then have st1: "st1 = snd (create_model ?o rec st)" by simp
    let ?st2 = "register_copy g (next_id st) st1"
    have g2: "grows ?st2 st'"
    proof (cases "eachAttribute env rec d ?o (attributes rec) Map.empty")
      case (Inl e)
      with rec None assms(2) cm have "st' = ?st2" by (auto simp: start_task_def Let_def)
      then show ?thesis by (simp add: grows_refl)
    next
      case (Inr dAttrs)
      obtain rA rest st3 where uy:
        "until_yield env rec (next_id st) d ?o (eachRelationship ?o rec) Map.empty ?st2 = (rA, rest, st3)"
        by (metis prod_cases3)
      from rec None assms(2) cm Inr uy
      have "st' = st3 \<or> (\<exists>attrs. st' = setProperties (next_id st) attrs st3)"
        by (auto simp: start_task_def Let_def split: list.splits)
      with until_yield_effect[OF uy] show ?thesis
        by (auto simp: grows_def setProperties_simps)
    qed
    have "map_of (copies ?st2) g = Some (next_id st)"
      using None by (simp add: register_copy_simps st1 create_model_copies map_add_Some_iff)
    from grows_map_of[OF g2 this] show ?thesis by simp
  qed
qed

lemma invoke_registered:
  "invoke env d ro ms st = (ts, st') \<Longrightarrow> g \<in> set (List.map_filter (task_of env) ms) \<Longrightarrow>
     map_of (copies st') g \<noteq> None"
proof (induction ms arbitrary: st ts)
  case Nil
  then show ?case by (simp add: List.map_filter_simps)
next
  case (Cons m ms)
  show ?case
  proof (cases "task_of env m")
    case None
    with Cons.prems(1) obtain ts0 where rest: "invoke env d ro ms st = (ts0, st')"
      by (auto split: prod.splits)
    from Cons.prems(2) None have "g \<in> set (List.map_filter (task_of env) ms)"
      by (simp add: List.map_filter_simps)
    from Cons.IH[OF rest this] show ?thesis .
  next
    case (Some h)
    obtain s st1 where s1: "start_task env h d ro st = (s, st1)" by (cases "start_task env h d ro st")
    with Some Cons.prems(1) obtain ts0 where rest: "invoke env d ro ms st1 = (ts0, st')"
      by (auto split: prod.splits)
    from Cons.prems(2) Some have "g = h \<or> g \<in> set (List.map_filter (task_of env) ms)"
      by (simp add: List.map_filter_simps)
    then show ?thesis
    proof
      assume "g = h"
      with start_task_registered[OF task_of_record[OF Some] s1]
      obtain c where "map_of (copies st1) g = Some c" by auto
      with invoke_sound[OF rest] show ?thesis by (auto dest: grows_map_of)
    next
      assume "g \<in> set (List.map_filter (task_of env) ms)"
      from Cons.IH[OF rest this] show ?thesis .
    qed
  qed
qed

subsection \<open>Reading the example runs\<close>

lemma run_eq: "map_option fst X = Some a \<Longrightarrow> s = snd (the X) \<Longrightarrow> X = Some (a, s)"
  by (cases X) auto

lemma blog_records: "map_of (records blog) 1 = Some post"
  by (simp add: blog_def blog_with_def)

lemma empty_store_fresh: "map_of (copies empty_store) g = None"
  by (simp add: empty_store_def)

text \<open>
  The unloading of a copy that is a plain object throws. In the broken blog the deep copy
  of a comment as a plain object throws while its author is copied: the unloading of the
  comment's copy throws a \<open>TypeError\<close>, which the call fails with, and the copy of the
  author stays loaded.
\<close>

lemma unload_plain_object:
  "map_option fst (COPY_TASK_RUNNER 6 broken_blog 2 True (Some as_object) empty_store)
     = Some (Inl TypeError) \<and>
   copies failed_object = [(2, 0), (4, 1)] \<and>
   clone_model (objects failed_object 0) = None \<and>
   loaded failed_object = {1}"
  by code_simp

section \<open>The claims\<close>

text \<open>
  C1. Within one session a record is copied once. The copy that a visit of a record
  \<open>s\<close> returns is the entry of \<open>s\<close> in \<open>copies\<close>. A visit of a record that
  \<open>copies\<close> has an entry \<open>c\<close> for returns \<open>c\<close> and leaves the session as it is,
  whatever its \<open>deep\<close> and options, whether the first visit of \<open>s\<close> has returned
  or is still copying its relationships (the entry is made before any field is copied);
  and the entry is still \<open>c\<close>, and still returned, after any other task of the
  session has run. So two relationships to one record, and a relationship back into
  a record being copied, lead to one copy.
\<close>

theorem same_clone:
  "(COPY_TASK m env s deep0 opts_arg0 st0 = Some (Inr c, st) \<longrightarrow>
      map_of (records env) s \<noteq> None \<and> map_of (copies st) s = Some c) \<and>
   (map_of (records env) s \<noteq> None \<longrightarrow> map_of (copies st) s = Some c \<longrightarrow>
      COPY_TASK (Suc k) env s deep opts_arg st = Some (Inr c, st) \<and>
      (COPY_TASK n env s' deep' opts_arg' st = Some (res, st') \<longrightarrow>
         map_of (copies st') s = Some c \<and>
         COPY_TASK (Suc k) env s deep opts_arg st' = Some (Inr c, st')))"
proof (intro conjI impI)
  assume first: "COPY_TASK m env s deep0 opts_arg0 st0 = Some (Inr c, st)"
  then show "map_of (records env) s \<noteq> None"
    by (cases m; cases "map_of (records env) s") auto
  from first show "map_of (copies st) s = Some c"
    by (rule COPY_TASK_recorded)
next
  assume "map_of (records env) s \<noteq> None" and reg: "map_of (copies st) s = Some c"
  then obtain r where rec: "map_of (records env) s = Some r" by blast
  from rec reg show "COPY_TASK (Suc k) env s deep opts_arg st = Some (Inr c, st)"
    by (rule COPY_TASK_memo)
  assume later: "COPY_TASK n env s' deep' opts_arg' st = Some (res, st')"
  from COPY_TASK_sound[OF later] have "grows st st'" by simp
  from grows_map_of[OF this reg] show c': "map_of (copies st') s = Some c" .
  from rec c' show "COPY_TASK (Suc k) env s deep opts_arg st' = Some (Inr c, st')"
    by (rule COPY_TASK_memo)
qed

text \<open>
  In the blog: the author is copied, then the post with its comments. Both copied
  comments have the one copy of the author, and each has the copy of the post, which
  was being copied when the comments were; a further visit of the author returns its
  copy.
\<close>

theorem same_clone_witness:
  "COPY_TASK 6 blog 4 True None empty_store = Some (Inr 0, after_user) \<and>
   map_of (copies after_user) 4 = Some 0 \<and>
   COPY_TASK 6 blog 1 True None after_user = Some (Inr 1, after_post) \<and>
   clone_props (objects after_post 2) ''author'' = Some (VClone 0) \<and>
   clone_props (objects after_post 3) ''author'' = Some (VClone 0) \<and>
   clone_props (objects after_post 2) ''post'' = Some (VClone 1) \<and>
   clone_props (objects after_post 3) ''post'' = Some (VClone 1) \<and>
   map_of (copies after_post) 4 = Some 0 \<and>
   COPY_TASK (Suc 0) blog 4 False (Some no_opts) after_post = Some (Inr 0, after_post)"
proof -
  have "map_option fst (COPY_TASK 6 blog 4 True None empty_store) = Some (Inr 0)"
    by code_simp
  then have a: "COPY_TASK 6 blog 4 True None empty_store = Some (Inr 0, after_user)"
    using after_user_def by (rule run_eq)
  have "map_option fst (COPY_TASK 6 blog 1 True None after_user) = Some (Inr 1)"
    by code_simp
  then have b: "COPY_TASK 6 blog 1 True None after_user = Some (Inr 1, after_post)"
    using after_post_def by (rule run_eq)
  have c: "clone_props (objects after_post 2) ''author'' = Some (VClone 0)"
    "clone_props (objects after_post 3) ''author'' = Some (VClone 0)"
    "clone_props (objects after_post 2) ''post'' = Some (VClone 1)"
    "clone_props (objects after_post 3) ''post'' = Some (VClone 1)"
    by code_simp+
  note first = same_clone[where env=blog and s=4 and m=6 and ?deep0.0=True and ?opts_arg0.0=None
      and ?st0.0=empty_store and c=0 and st=after_user and k=0 and deep=False
      and opts_arg="Some no_opts" and n=6 and s'=1 and deep'=True and opts_arg'=None
      and res="Inr 1" and st'=after_post]
  from first a have r: "map_of (copies after_user) 4 = Some 0" by blast
  from first a b
  have "map_of (copies after_post) 4 = Some 0"
    and "COPY_TASK (Suc 0) blog 4 False (Some no_opts) after_post = Some (Inr 0, after_post)"
    by blast+
  with a b c r show ?thesis by blast
qed

text \<open>
  C2. The copy of a record terminates on every record graph, so also on one with a
  relationship cycle of length two or more: a graph has finitely many records, each is
  registered in \<open>copies\<close> before its attributes and relationships are copied, and
  the visit of a registered record returns at once. The runner returns (a copy or an
  error) within a depth of one more than the number of records, and within any greater
  depth.
\<close>

theorem copy_terminates:
  "COPY_TASK_RUNNER (Suc (length (records env)) + k) env this deep opts_arg store \<noteq> None"
proof -
  have "unvisited env (store\<lparr>copies := []\<rparr>) < Suc (length (records env)) + k"
    using unvisited_le[of env "store\<lparr>copies := []\<rparr>"] by simp
  from COPY_TASK_returns[OF this]
  show ?thesis
    by (auto simp: COPY_TASK_RUNNER_def split: option.splits sum.splits prod.splits)
qed

text \<open>
  C3 (as amended). When the copy task behind \<open>copy\<close> throws \<open>e\<close> and every copy
  registered in \<open>copies\<close> is a store record, the runner unloads every registered copy
  and then fails with \<open>new Error(e)\<close>, an error made from \<open>e\<close>; it returns no copy.
  After it, no registered copy is loaded, and the store has loaded nothing that it had
  not loaded before the call: every copy that the session created is registered. (What
  the runner does when a registered copy is a plain object is left out here.)
\<close>

theorem rollback_on_failure:
  assumes run: "COPY_TASK n env this deep opts_arg (store\<lparr>copies := []\<rparr>) = Some (Inl e, st)"
    and models: "\<forall>c \<in> snd ` set (copies st). clone_model (objects st c) \<noteq> None"
  shows "\<exists>st'. COPY_TASK_RUNNER n env this deep opts_arg store = Some (Inl (Error e), st') \<and>
           copies st' = copies st \<and>
           loaded st' = loaded st - snd ` set (copies st) \<and>
           loaded st' \<inter> snd ` set (copies st') = {} \<and>
           loaded st' \<subseteq> loaded store"
proof -
  from unload_copies_models[OF models] obtain st' where
    u: "unload_copies (copies st) st = (None, st')"
    and l: "loaded st' = loaded st - snd ` set (copies st)"
    and c: "copies st' = copies st"
    by blast
  from COPY_TASK_sound[OF run]
  have "loaded st \<subseteq> loaded store \<union> snd ` set (copies st)"
    by (simp add: grows_def)
  with l have sub: "loaded st' \<subseteq> loaded store" by auto
  from l c have dis: "loaded st' \<inter> snd ` set (copies st') = {}" by auto
  from run u have "COPY_TASK_RUNNER n env this deep opts_arg store = Some (Inl (Error e), st')"
    by (simp add: COPY_TASK_RUNNER_def)
  with c l dis sub show ?thesis by blast
qed

text \<open>
  In the broken blog the deep copy of a comment throws while its author is copied; the
  two copies made until then, both store records, are unloaded.
\<close>

theorem rollback_on_failure_witness:
  "COPY_TASK 6 broken_blog 2 True None (empty_store\<lparr>copies := []\<rparr>)
     = Some (Inl (Thrown (VStr ''no transform'')), failed_copy) \<and>
   copies failed_copy = [(2, 0), (4, 1)] \<and>
   loaded failed_copy = {0, 1} \<and>
   clone_model (objects failed_copy 0) = Some ''comment'' \<and>
   clone_model (objects failed_copy 1) = Some ''user'' \<and>
   COPY_TASK_RUNNER 6 broken_blog 2 True None empty_store
     = Some (Inl (Error (Thrown (VStr ''no transform''))), rolled_back) \<and>
   copies rolled_back = [(2, 0), (4, 1)] \<and>
   loaded rolled_back = {}"
proof -
  have "map_option fst (COPY_TASK 6 broken_blog 2 True None (empty_store\<lparr>copies := []\<rparr>))
     = Some (Inl (Thrown (VStr ''no transform'')))"
    by code_simp
  then have a: "COPY_TASK 6 broken_blog 2 True None (empty_store\<lparr>copies := []\<rparr>)
      = Some (Inl (Thrown (VStr ''no transform'')), failed_copy)"
    using failed_copy_def by (rule run_eq)
  have c: "copies failed_copy = [(2, 0), (4, 1)]" by code_simp
  have l: "loaded failed_copy = {0, 1}" by code_simp
  have m: "clone_model (objects failed_copy 0) = Some ''comment''"
    "clone_model (objects failed_copy 1) = Some ''user''"
    by code_simp+
  have "\<forall>c \<in> snd ` set (copies failed_copy). clone_model (objects failed_copy c) \<noteq> None"
    unfolding c using m by simp
  from rollback_on_failure[OF a this] obtain st' where
    r: "COPY_TASK_RUNNER 6 broken_blog 2 True None empty_store
          = Some (Inl (Error (Thrown (VStr ''no transform''))), st')"
    and c': "copies st' = copies failed_copy"
    and l': "loaded st' = loaded failed_copy - snd ` set (copies failed_copy)"
    by blast
  from r have "rolled_back = st'" unfolding rolled_back_def by (simp only: option.sel snd_conv)
  with r c' l' c l have "COPY_TASK_RUNNER 6 broken_blog 2 True None empty_store
     = Some (Inl (Error (Thrown (VStr ''no transform''))), rolled_back)"
    and "copies rolled_back = [(2, 0), (4, 1)]" and "loaded rolled_back = {}"
    by auto
  with a c l m show ?thesis by blast
qed

text \<open>
  The claim as it was stated, with the call failing with the originating error, does
  not hold: the error of the copy task and the error of the call differ.
\<close>

theorem error_is_wrapped:
  "map_option fst (COPY_TASK 6 broken_blog 2 True None (empty_store\<lparr>copies := []\<rparr>))
     = Some (Inl (Thrown (VStr ''no transform''))) \<and>
   map_option fst (COPY_TASK_RUNNER 6 broken_blog 2 True None empty_store)
     = Some (Inl (Error (Thrown (VStr ''no transform'')))) \<and>
   Error (Thrown (VStr ''no transform'')) \<noteq> Thrown (VStr ''no transform'')"
  by code_simp

text \<open>
  C4. A name with an entry \<open>V\<close> in the \<open>overwrite\<close> of the merged options reads as
  \<open>V\<close> on the copy that a first visit returns, whatever \<open>ignoreAttributes\<close>,
  \<open>copyByReference\<close>, \<open>deep\<close> and \<open>relationships\<close> say about the name:
  \<open>overwrite\<close> is the last source of the final \<open>assign\<close>.
\<close>

theorem overwrite_wins:
  assumes run: "COPY_TASK n env this deep opts_arg st = Some (Inr model, st')"
    and rec: "map_of (records env) this = Some r"
    and fresh: "map_of (copies st) this = None"
    and ow: "overwrite (merged_options r opts_arg) name = Some V"
  shows "js_get (clone_props (objects st' model)) name = V"
proof -
  from run rec fresh obtain attrs st3 where
    "model = next_id st" and
    "st' = setProperties (next_id st) (attrs ++ overwrite (merged_options r opts_arg)) st3"
    by (rule COPY_TASK_success_fresh) blast
  with ow show ?thesis
    by (simp add: setProperties_simps js_get_def map_add_Some_iff)
qed

text \<open>The title of the post, ignored and by reference, and overwritten with \<open>'y'\<close>.\<close>

theorem overwrite_wins_witness:
  "COPY_TASK 6 blog 1 True (Some retitled) empty_store = Some (Inr 0, retitled_post) \<and>
   ''title'' \<in> set (ignoreAttributes (merged_options post (Some retitled))) \<and>
   ''title'' \<in> set (copyByReference (merged_options post (Some retitled))) \<and>
   js_get (props post) ''title'' = VStr ''x'' \<and>
   js_get (clone_props (objects retitled_post 0)) ''title'' = VStr ''y''"
proof -
  have "map_option fst (COPY_TASK 6 blog 1 True (Some retitled) empty_store) = Some (Inr 0)"
    by code_simp
  then have a: "COPY_TASK 6 blog 1 True (Some retitled) empty_store = Some (Inr 0, retitled_post)"
    using retitled_post_def by (rule run_eq)
  have i: "''title'' \<in> set (ignoreAttributes (merged_options post (Some retitled)))"
    and r: "''title'' \<in> set (copyByReference (merged_options post (Some retitled)))"
    and s: "js_get (props post) ''title'' = VStr ''x''"
    and o: "overwrite (merged_options post (Some retitled)) ''title'' = Some (VStr ''y'')"
    by code_simp+
  from overwrite_wins[OF a blog_records empty_store_fresh o] a i r s show ?thesis
    by blast
qed

text \<open>
  C5 (as amended). A shallow copy performs no copy task of a related record: its result
  does not depend on the depth allowed, a depth of one suffices, and the one copy it
  registers is its own. For every relationship of the record that the merged options
  (those of the call over the record's \<open>copyableOptions\<close>) neither ignore nor
  overwrite, the members of the source's relationship are handed to the link of the
  copy's relationship when the copy is a store record with the private relationship API,
  and else, the link having thrown, the value read from the source is set on the copy.
  (What the store makes of the link is left out here.)
\<close>

theorem shallow_copy_links:
  assumes run: "COPY_TASK n env this False opts_arg st = Some (Inr model, st')"
    and rec: "map_of (records env) this = Some r"
    and fresh: "map_of (copies st) this = None"
  shows "COPY_TASK (Suc k) env this False opts_arg st = COPY_TASK (Suc 0) env this False opts_arg st \<and>
         COPY_TASK (Suc 0) env this False opts_arg st = Some (Inr model, st') \<and>
         copies st' = copies st @ [(this, model)] \<and>
         (\<forall>(name, knd) \<in> set (relationshipsByName r).
            name \<notin> set (ignoreAttributes (merged_options r opts_arg)) \<longrightarrow>
            overwrite (merged_options r opts_arg) name = None \<longrightarrow>
            (if createAsModel (merged_options r opts_arg) \<and> private_api env
             then (model, name, js_get (props r) name) \<in> set (links st')
             else clone_props (objects st' model) name = Some (js_get (props r) name)))"
proof -
  let ?o = "merged_options r opts_arg"
  let ?st2 = "register_copy this (next_id st) (snd (create_model ?o r st))"
  from run rec fresh obtain n' dAttrs rAttrs st3 where
    n: "n = Suc n'" and m: "model = next_id st"
    and da: "eachAttribute env r False ?o (attributes r) Map.empty = Inr dAttrs"
    and loop: "copy_relationships env (task_instance n' env) r (next_id st) False ?o
                 (eachRelationship ?o r) Map.empty ?st2 = Some (Inr rAttrs, st3)"
    and st': "st' = setProperties (next_id st)
                (getProperties r (otherAttributes ?o) ++ dAttrs ++ rAttrs ++ overwrite ?o) st3"
    by (rule COPY_TASK_success_fresh)
  have kind: "clone_model (objects ?st2 (next_id st)) \<noteq> None \<longleftrightarrow> createAsModel ?o"
    by (simp add: register_copy_simps create_model_kind)
  from shallow_loop[of env "task_instance n' env" r "next_id st" ?o "eachRelationship ?o r" Map.empty ?st2] loop
  have c3: "copies st3 = copies ?st2"
    and li: "\<forall>k \<in> fst ` set (eachRelationship ?o r). overwrite ?o k = None \<longrightarrow>
        (if clone_model (objects ?st2 (next_id st)) \<noteq> None \<and> private_api env
         then (next_id st, k, js_get (props r) k) \<in> set (links st3)
         else rAttrs k = Some (js_get (props r) k))"
    by auto
  have depth: "COPY_TASK (Suc j) env this False opts_arg st = COPY_TASK (Suc 0) env this False opts_arg st" for j
    by (rule shallow_depth)
  have one: "COPY_TASK (Suc 0) env this False opts_arg st = Some (Inr model, st')"
    using run depth[of n'] by (simp add: n)
  have cp: "copies st' = copies st @ [(this, model)]"
    by (simp add: st' setProperties_simps c3 register_copy_simps create_model_copies m)
  have links: "if createAsModel ?o \<and> private_api env
               then (model, name, js_get (props r) name) \<in> set (links st')
               else clone_props (objects st' model) name = Some (js_get (props r) name)"
    if rel: "(name, knd) \<in> set (relationshipsByName r)"
      and ni: "name \<notin> set (ignoreAttributes ?o)"
      and ow: "overwrite ?o name = None"
    for name knd
  proof -
    from rel ni have "name \<in> fst ` set (eachRelationship ?o r)"
      by (force simp: eachRelationship_def)
    from bspec[OF li this] ow kind
    have cases: "if createAsModel ?o \<and> private_api env
         then (next_id st, name, js_get (props r) name) \<in> set (links st3)
         else rAttrs name = Some (js_get (props r) name)"
      by simp
    show ?thesis
    proof (cases "createAsModel ?o \<and> private_api env")
      case True
      with cases show ?thesis by (simp add: m st' setProperties_simps)
    next
      case False
      with cases have "rAttrs name = Some (js_get (props r) name)" by auto
      with ow False show ?thesis
        by (auto simp: m st' setProperties_simps map_add_def)
    qed
  qed
  from depth[of k] one cp links show ?thesis by blast
qed

text \<open>
  The shallow copy of the post, a store record: the comments of the source are handed
  to the link of its comments.
\<close>

theorem shallow_copy_links_witness:
  "COPY_TASK 6 blog 1 False (Some no_opts) empty_store = Some (Inr 0, shallow_post) \<and>
   COPY_TASK (Suc 0) blog 1 False (Some no_opts) empty_store = Some (Inr 0, shallow_post) \<and>
   copies shallow_post = copies empty_store @ [(1, 0)] \<and>
   (0, ''comments'', VArray [VRecord 2, VRecord 3]) \<in> set (links shallow_post)"
proof -
  have "map_option fst (COPY_TASK 6 blog 1 False (Some no_opts) empty_store) = Some (Inr 0)"
    by code_simp
  then have a: "COPY_TASK 6 blog 1 False (Some no_opts) empty_store = Some (Inr 0, shallow_post)"
    using shallow_post_def by (rule run_eq)
  have i: "''comments'' \<notin> set (ignoreAttributes (merged_options post (Some no_opts)))"
    and o: "overwrite (merged_options post (Some no_opts)) ''comments'' = None"
    and k: "createAsModel (merged_options post (Some no_opts)) \<and> private_api blog"
    by code_simp+
  have r: "(''comments'', hasMany) \<in> set (relationshipsByName post)"
    and g: "js_get (props post) ''comments'' = VArray [VRecord 2, VRecord 3]"
    by (simp_all add: post_def js_get_def)
  note inst = shallow_copy_links[OF a blog_records empty_store_fresh]
  from inst r i o
  have "if createAsModel (merged_options post (Some no_opts)) \<and> private_api blog
        then (0, ''comments'', js_get (props post) ''comments'') \<in> set (links shallow_post)
        else clone_props (objects shallow_post 0) ''comments'' = Some (js_get (props post) ''comments'')"
    by blast
  with k g have l: "(0, ''comments'', VArray [VRecord 2, VRecord 3]) \<in> set (links shallow_post)"
    by (simp only: if_True)
  from inst a l show ?thesis by blast
qed

text \<open>
  The claim as it was stated, for every record and every relationship, does not hold.
  The draft's own options ignore its comments: its shallow copy, made with the options
  \<open>{}\<close>, has no comments and no link was made for it, while the source has two. The
  own options of record 7 overwrite its comments: its shallow copy has the comments of
  the overwrite, none, and no link was made for it.
\<close>

theorem shallow_copy_ignores:
  "map_option fst (COPY_TASK_RUNNER 6 blog 6 False (Some no_opts) empty_store) = Some (Inr 0) \<and>
   relationshipsByName draft = [(''comments'', hasMany)] \<and>
   js_get (props draft) ''comments'' = VArray [VRecord 2, VRecord 3] \<and>
   links shallow_draft = [] \<and>
   clone_props (objects shallow_draft 0) ''comments'' = None \<and>
   map_option fst (COPY_TASK_RUNNER 6 blog 7 False (Some no_opts) empty_store) = Some (Inr 0) \<and>
   relationshipsByName pinned = [(''comments'', hasMany)] \<and>
   js_get (props pinned) ''comments'' = VArray [VRecord 2, VRecord 3] \<and>
   links shallow_pinned = [] \<and>
   clone_props (objects shallow_pinned 0) ''comments'' = Some (VArray [])"
  by code_simp

text \<open>
  C6 (as amended). A to-many relationship in deep-copy mode: the collection is kept as
  it is when it is empty or when its first member does not expose the copy capability.
  Otherwise the copy tasks of the members that have one are performed concurrently: all
  of them are started, in the order of the collection, each with \<open>deepRel\<close> and
  \<open>relOptions\<close> in the session that the one before has left, so that each has its
  entry in \<open>copies\<close> before \<open>all\<close> waits for any of them; the result of the wait is
  a new collection, no longer than the source, that holds at the index of each such
  member the copy registered for it.
\<close>

theorem has_many_deep_copy:
  assumes val: "js_get (props this) name = VArray ms"
  shows "(ms = [] \<longrightarrow>
            deep_copy_relationship env (task_instance n env) this deep options name hasMany st
              = Some (Inr (VArray ms), st)) \<and>
         (\<forall>m rest. ms = m # rest \<longrightarrow> (\<not> truthy m \<or> get_IS_COPYABLE env m = Inr None) \<longrightarrow>
            deep_copy_relationship env (task_instance n env) this deep options name hasMany st
              = Some (Inr (VArray ms), st)) \<and>
         (\<forall>m rest g. ms = m # rest \<longrightarrow> truthy m \<longrightarrow> get_IS_COPYABLE env m = Inr (Some g) \<longrightarrow>
            snd (invoke env (deepRel_of (map_of (relationships options) name) deep)
                   (map_of (relationships options) name) ms st)
              = foldl (\<lambda>s g. snd (start_task env g
                                    (deepRel_of (map_of (relationships options) name) deep)
                                    (map_of (relationships options) name) s))
                  st (List.map_filter (task_of env) ms) \<and>
            (\<forall>i<length ms.
               fst (invoke env (deepRel_of (map_of (relationships options) name) deep)
                      (map_of (relationships options) name) ms st) ! i
                 = map_option
                     (\<lambda>g. fst (start_task env g
                                 (deepRel_of (map_of (relationships options) name) deep)
                                 (map_of (relationships options) name)
                                 (foldl (\<lambda>s g. snd (start_task env g
                                                       (deepRel_of (map_of (relationships options) name) deep)
                                                       (map_of (relationships options) name) s))
                                    st (List.map_filter (task_of env) (take i ms)))))
                     (task_of env (ms ! i))) \<and>
            (\<forall>g' \<in> set (List.map_filter (task_of env) ms).
               map_of (copies (snd (invoke env (deepRel_of (map_of (relationships options) name) deep)
                                      (map_of (relationships options) name) ms st))) g' \<noteq> None) \<and>
            deep_copy_relationship env (task_instance n env) this deep options name hasMany st
              = (case all_tasks (task_instance n env)
                        (array_of (fst (invoke env (deepRel_of (map_of (relationships options) name) deep)
                                          (map_of (relationships options) name) ms st)))
                        (snd (invoke env (deepRel_of (map_of (relationships options) name) deep)
                                (map_of (relationships options) name) ms st)) of
                   None \<Rightarrow> None
                 | Some (Inl e, st') \<Rightarrow> Some (Inl e, st')
                 | Some (Inr cs, st') \<Rightarrow> Some (Inr (VArray cs), st')) \<and>
            (\<forall>v st'. deep_copy_relationship env (task_instance n env) this deep options name hasMany st
                        = Some (Inr v, st') \<longrightarrow>
               (\<exists>cs. v = VArray cs \<and> length cs \<le> length ms \<and>
                  (\<forall>i<length ms. \<forall>g'. task_of env (ms ! i) = Some g' \<longrightarrow>
                     i < length cs \<and>
                     (\<exists>k. cs ! i = VClone k \<and> map_of (copies st') g' = Some k)))))"
proof (intro conjI allI impI ballI)
  assume "ms = []"
  with val show "deep_copy_relationship env (task_instance n env) this deep options name hasMany st
              = Some (Inr (VArray ms), st)"
    by (simp add: deep_hasMany_unfold)
next
  fix m rest
  assume "ms = m # rest" and "\<not> truthy m \<or> get_IS_COPYABLE env m = Inr None"
  with val show "deep_copy_relationship env (task_instance n env) this deep options name hasMany st
              = Some (Inr (VArray ms), st)"
    by (auto simp: deep_hasMany_unfold)
next
  fix m rest g
  let ?ro = "map_of (relationships options) name"
  let ?d = "deepRel_of ?ro deep"
  show "snd (invoke env ?d ?ro ms st)
          = foldl (\<lambda>s g. snd (start_task env g ?d ?ro s)) st (List.map_filter (task_of env) ms)"
    by (rule invoke_state)
next
  fix m rest g i
  let ?ro = "map_of (relationships options) name"
  let ?d = "deepRel_of ?ro deep"
  assume "i < length ms"
  from invoke_nth[OF this, of env ?d ?ro st]
  show "fst (invoke env ?d ?ro ms st) ! i
          = map_option
              (\<lambda>g. fst (start_task env g ?d ?ro
                          (foldl (\<lambda>s g. snd (start_task env g ?d ?ro s)) st
                             (List.map_filter (task_of env) (take i ms)))))
              (task_of env (ms ! i))"
    by (simp only: invoke_state)
next
  fix m rest g g'
  let ?ro = "map_of (relationships options) name"
  let ?d = "deepRel_of ?ro deep"
  assume "g' \<in> set (List.map_filter (task_of env) ms)"
  with invoke_registered[of env ?d ?ro ms st "fst (invoke env ?d ?ro ms st)" "snd (invoke env ?d ?ro ms st)" g']
  show "map_of (copies (snd (invoke env ?d ?ro ms st))) g' \<noteq> None"
    by simp
next
  fix m rest g
  let ?ro = "map_of (relationships options) name"
  let ?d = "deepRel_of ?ro deep"
  assume ms: "ms = m # rest" and t: "truthy m" and c: "get_IS_COPYABLE env m = Inr (Some g)"
  with val have eq: "deep_copy_relationship env (task_instance n env) this deep options name hasMany st
              = (case perform_all env (task_instance n env) ?d ?ro ms st of
                   None \<Rightarrow> None
                 | Some (Inl e, st') \<Rightarrow> Some (Inl e, st')
                 | Some (Inr cs, st') \<Rightarrow> Some (Inr (VArray cs), st'))"
    by (simp add: deep_hasMany_unfold)
  then show "deep_copy_relationship env (task_instance n env) this deep options name hasMany st
              = (case all_tasks (task_instance n env) (array_of (fst (invoke env ?d ?ro ms st)))
                        (snd (invoke env ?d ?ro ms st)) of
                   None \<Rightarrow> None
                 | Some (Inl e, st') \<Rightarrow> Some (Inl e, st')
                 | Some (Inr cs, st') \<Rightarrow> Some (Inr (VArray cs), st'))"
    by (simp add: perform_all_def case_prod_unfold)
  fix v st'
  assume "deep_copy_relationship env (task_instance n env) this deep options name hasMany st
                        = Some (Inr v, st')"
  with eq obtain cs where
    pa: "perform_all env (task_instance n env) ?d ?ro ms st = Some (Inr cs, st')"
    and v: "v = VArray cs"
    by (auto split: option.splits sum.splits prod.splits)
  from perform_all_sound[OF task_instance_sound pa] v
  show "\<exists>cs. v = VArray cs \<and> length cs \<le> length ms \<and>
          (\<forall>i<length ms. \<forall>g'. task_of env (ms ! i) = Some g' \<longrightarrow>
             i < length cs \<and> (\<exists>k. cs ! i = VClone k \<and> map_of (copies st') g' = Some k))"
    by blast
qed

text \<open>
  The posts of the user (none), the friends of the user (the first is a guest) and the
  comments of the post: both comments are started, and have their entries, before
  either is seen to its end, and their copies are the result, in order.
\<close>

theorem has_many_deep_copy_witness:
  "deep_copy_relationship blog (task_instance 6 blog) user True DEFAULT_OPTIONS ''posts'' hasMany empty_store
     = Some (Inr (VArray []), empty_store) \<and>
   deep_copy_relationship blog (task_instance 6 blog) user True DEFAULT_OPTIONS ''friends'' hasMany empty_store
     = Some (Inr (VArray [VRecord 5, VRecord 4]), empty_store) \<and>
   started_comments
     = snd (start_task blog 3 True None (snd (start_task blog 2 True None empty_store))) \<and>
   copies started_comments = [(2, 0), (3, 1)] \<and>
   deep_copy_relationship blog (task_instance 6 blog) post True DEFAULT_OPTIONS ''comments'' hasMany empty_store
     = Some (Inr (VArray [VClone 0, VClone 1]), after_comments) \<and>
   map_of (copies after_comments) 2 = Some 0 \<and>
   map_of (copies after_comments) 3 = Some 1 \<and>
   copies after_comments = [(2, 0), (3, 1), (4, 2), (1, 3)]"
proof -
  have p: "js_get (props user) ''posts'' = VArray []"
    and f: "js_get (props user) ''friends'' = VArray [VRecord 5, VRecord 4]"
    and c: "js_get (props post) ''comments'' = VArray [VRecord 2, VRecord 3]"
    by (simp_all add: js_get_def user_def post_def)
  have g5: "get_IS_COPYABLE blog (VRecord 5) = Inr None"
    by (simp add: blog_def blog_with_def guest_def)
  have g2: "truthy (VRecord 2)" "get_IS_COPYABLE blog (VRecord 2) = Inr (Some 2)"
    by (simp_all add: blog_def blog_with_def comment_def)
  have t: "task_of blog ([VRecord 2, VRecord 3] ! 0) = Some 2"
    "task_of blog ([VRecord 2, VRecord 3] ! 1) = Some 3"
    by (simp_all add: task_of_def blog_def blog_with_def comment_def)
  have tl: "List.map_filter (task_of blog) [VRecord 2, VRecord 3] = [2, 3]"
    by (simp add: List.map_filter_simps task_of_def blog_def blog_with_def comment_def)
  have o: "map_of (relationships DEFAULT_OPTIONS) ''comments'' = None"
    "deepRel_of None True = True"
    by (simp_all add: DEFAULT_OPTIONS_def deepRel_of_def)
  have "map_option fst (deep_copy_relationship blog (task_instance 6 blog) post True DEFAULT_OPTIONS
                     ''comments'' hasMany empty_store)
     = Some (Inr (VArray [VClone 0, VClone 1]))"
    by code_simp
  then have r: "deep_copy_relationship blog (task_instance 6 blog) post True DEFAULT_OPTIONS
       ''comments'' hasMany empty_store = Some (Inr (VArray [VClone 0, VClone 1]), after_comments)"
    using after_comments_def by (rule run_eq)
  have cs: "copies after_comments = [(2, 0), (3, 1), (4, 2), (1, 3)]"
    and sc: "copies started_comments = [(2, 0), (3, 1)]"
    by code_simp+
  from has_many_deep_copy[OF p, of blog 6 True DEFAULT_OPTIONS empty_store]
  have e1: "deep_copy_relationship blog (task_instance 6 blog) user True DEFAULT_OPTIONS ''posts'' hasMany empty_store
     = Some (Inr (VArray []), empty_store)"
    by blast
  from has_many_deep_copy[OF f, of blog 6 True DEFAULT_OPTIONS empty_store] g5
  have e2: "deep_copy_relationship blog (task_instance 6 blog) user True DEFAULT_OPTIONS ''friends'' hasMany empty_store
     = Some (Inr (VArray [VRecord 5, VRecord 4]), empty_store)"
    by blast
  note inst = has_many_deep_copy[OF c, of blog 6 True DEFAULT_OPTIONS empty_store]
  from inst g2 have "snd (invoke blog (deepRel_of (map_of (relationships DEFAULT_OPTIONS) ''comments'') True)
                   (map_of (relationships DEFAULT_OPTIONS) ''comments'') [VRecord 2, VRecord 3] empty_store)
              = foldl (\<lambda>s g. snd (start_task blog g
                                    (deepRel_of (map_of (relationships DEFAULT_OPTIONS) ''comments'') True)
                                    (map_of (relationships DEFAULT_OPTIONS) ''comments'') s))
                  empty_store (List.map_filter (task_of blog) [VRecord 2, VRecord 3])"
    by blast
  then have e3: "started_comments
       = snd (start_task blog 3 True None (snd (start_task blog 2 True None empty_store)))"
    unfolding o tl started_comments_def by (simp only: foldl.simps)
  from inst g2 r
  have "\<exists>cs. VArray [VClone 0, VClone 1] = VArray cs \<and> length cs \<le> length [VRecord 2, VRecord 3] \<and>
          (\<forall>i<length [VRecord 2, VRecord 3]. \<forall>g'. task_of blog ([VRecord 2, VRecord 3] ! i) = Some g' \<longrightarrow>
             i < length cs \<and> (\<exists>k. cs ! i = VClone k \<and> map_of (copies after_comments) g' = Some k))"
    by blast
  then have pos: "\<forall>i<length [VRecord 2, VRecord 3]. \<forall>g'. task_of blog ([VRecord 2, VRecord 3] ! i) = Some g' \<longrightarrow>
             (\<exists>k. [VClone 0, VClone 1] ! i = VClone k \<and> map_of (copies after_comments) g' = Some k)"
    by (auto simp only: val.inject)
  from pos t(1) have "\<exists>k. [VClone 0, VClone 1] ! 0 = VClone k \<and> map_of (copies after_comments) 2 = Some k"
    by (metis length_Cons zero_less_Suc)
  then have e4: "map_of (copies after_comments) 2 = Some 0" by simp
  from pos t(2) have "\<exists>k. [VClone 0, VClone 1] ! 1 = VClone k \<and> map_of (copies after_comments) 3 = Some k"
    by (metis One_nat_def length_Cons lessI list.size(3) not_less_eq zero_less_Suc)
  then have e5: "map_of (copies after_comments) 3 = Some 1" by simp
  from e1 e2 e3 sc r e4 e5 cs show ?thesis by blast
qed

text \<open>
  The claim as it was stated, with the members deciding, does not hold: the friends of
  the user are kept as they are although the second friend exposes the copy capability,
  and the followers are not kept as they are although the second follower does not
  expose it: the result has the copy of the first follower and no second member. The
  first member decides.
\<close>

theorem first_member_decides:
  "js_get (props user) ''friends'' = VArray [VRecord 5, VRecord 4] \<and>
   task_of blog (VRecord 5) = None \<and> task_of blog (VRecord 4) = Some 4 \<and>
   map_option fst (deep_copy_relationship blog (task_instance 6 blog) user True DEFAULT_OPTIONS
                     ''friends'' hasMany empty_store)
     = Some (Inr (VArray [VRecord 5, VRecord 4])) \<and>
   js_get (props user) ''followers'' = VArray [VRecord 4, VRecord 5] \<and>
   task_of blog (VRecord 4) = Some 4 \<and> task_of blog (VRecord 5) = None \<and>
   map_option fst (deep_copy_relationship blog (task_instance 6 blog) user True DEFAULT_OPTIONS
                     ''followers'' hasMany empty_store)
     \<noteq> Some (Inr (VArray [VRecord 4, VRecord 5])) \<and>
   map_option fst (deep_copy_relationship blog (task_instance 6 blog) user True DEFAULT_OPTIONS
                     ''followers'' hasMany empty_store)
     = Some (Inr (VArray [VClone 0]))"
  by code_simp





text \<open>
  C10. A key of \<open>overwrite\<close> whose value is \<open>undefined\<close>: the check
  \<open>!isUndefined(overwrite[name])\<close> fails, the callback of \<open>eachAttribute\<close> and the
  turn of the loop over the relationships do for the name what they do when
  \<open>overwrite\<close> has no such key, and yet the final \<open>assign\<close> copies the key, so that
  the copy a first visit returns has the property set to \<open>undefined\<close>.
\<close>

theorem overwrite_undefined:
  assumes run: "COPY_TASK n env this deep opts_arg st = Some (Inr model, st')"
    and rec: "map_of (records env) this = Some r"
    and fresh: "map_of (copies st) this = None"
    and ow: "overwrite (merged_options r opts_arg) name = Some VUndefined"
  shows "isUndefined (js_get (overwrite (merged_options r opts_arg)) name) \<and>
         copy_attribute env r deep (merged_options r opts_arg) (name, type, attributeOptions) dAttrs =
           copy_attribute env r deep
             ((merged_options r opts_arg)\<lparr>overwrite := (overwrite (merged_options r opts_arg))(name := None)\<rparr>)
             (name, type, attributeOptions) dAttrs \<and>
         copy_relationships env p r model deep (merged_options r opts_arg) [(name, knd)] rAttrs st0 =
           copy_relationships env p r model deep
             ((merged_options r opts_arg)\<lparr>overwrite := (overwrite (merged_options r opts_arg))(name := None)\<rparr>)
             [(name, knd)] rAttrs st0 \<and>
         clone_props (objects st' model) name = Some VUndefined"
proof -
  from run rec fresh obtain attrs st3 where
    "model = next_id st" and
    "st' = setProperties (next_id st) (attrs ++ overwrite (merged_options r opts_arg)) st3"
    by (rule COPY_TASK_success_fresh) blast
  with ow have fin: "clone_props (objects st' model) name = Some VUndefined"
    by (simp add: setProperties_simps map_add_Some_iff)
  from ow have u: "isUndefined (js_get (overwrite (merged_options r opts_arg)) name)"
    by (simp add: isUndefined_def js_get_def)
  have u': "isUndefined (js_get ((overwrite (merged_options r opts_arg))(name := None)) name)"
    by (simp add: isUndefined_def js_get_def)
  from u u' fin show ?thesis
    by (simp add: deep_copy_relationship_overwrite split: sum.splits option.splits prod.splits)
qed

text \<open>The title of the post, \<open>'x'\<close> on the source, is \<open>undefined\<close> on the copy.\<close>

theorem overwrite_undefined_witness:
  "COPY_TASK 6 blog 1 True (Some untitled) empty_store = Some (Inr 0, untitled_post) \<and>
   js_get (props post) ''title'' = VStr ''x'' \<and>
   copy_attribute blog post True (merged_options post (Some untitled))
     (''title'', Some ''string'', VUndefined) Map.empty = Inr [''title'' \<mapsto> VStr ''x''] \<and>
   clone_props (objects untitled_post 0) ''title'' = Some VUndefined"
proof -
  have "map_option fst (COPY_TASK 6 blog 1 True (Some untitled) empty_store) = Some (Inr 0)"
    by code_simp
  then have a: "COPY_TASK 6 blog 1 True (Some untitled) empty_store = Some (Inr 0, untitled_post)"
    using untitled_post_def by (rule run_eq)
  have s: "js_get (props post) ''title'' = VStr ''x''"
    and o: "overwrite (merged_options post (Some untitled)) ''title'' = Some VUndefined"
    by code_simp+
  have d: "copy_attribute blog post True
             ((merged_options post (Some untitled))
                \<lparr>overwrite := (overwrite (merged_options post (Some untitled)))(''title'' := None)\<rparr>)
             (''title'', Some ''string'', VUndefined) Map.empty = Inr [''title'' \<mapsto> VStr ''x'']"
    by (simp add: merged_options_def assign_def DEFAULT_OPTIONS_def untitled_def post_def
        isUndefined_def js_get_def isEmpty_def is_primitive_def PRIMITIVE_TYPES_def)
  note inst = overwrite_undefined[OF a blog_records empty_store_fresh o,
      where type="Some ''string''" and attributeOptions=VUndefined and dAttrs=Map.empty]
  from inst d have "copy_attribute blog post True (merged_options post (Some untitled))
     (''title'', Some ''string'', VUndefined) Map.empty = Inr [''title'' \<mapsto> VStr ''x'']"
    by (simp only:)
  with inst a s show ?thesis by blast
qed


end
